theory Spec2Isabelle
  imports Complex_Main "HOL-Library.AList"
begin

section \<open>Python primitives used by the memory and retrieval code\<close>

text \<open>
  Strings are ASCII byte lists. \<open>str.split()\<close> without arguments cuts at runs of
  whitespace and never yields an empty word; \<open>str.lower\<close> and \<open>str.upper\<close> map the
  26 letters; \<open>sep.join\<close> puts the separator between neighbours. A slice
  \<open>xs[lo:hi]\<close> clamps both bounds, counting negative ones from the end.
\<close>

datatype py_error = KeyError | ValueError

definition whitespace :: "char list" where
  "whitespace = [CHR 0x09, CHR 0x0A, CHR 0x0B, CHR 0x0C, CHR 0x0D,
                 CHR 0x1C, CHR 0x1D, CHR 0x1E, CHR 0x1F, CHR 0x20]"

definition isspace :: "char \<Rightarrow> bool" where
  "isspace c = (c \<in> set whitespace)"

fun split_acc :: "string \<Rightarrow> string \<Rightarrow> string list" where
  "split_acc w [] = (if w = [] then [] else [w])"
| "split_acc w (c # cs) =
     (if isspace c then (if w = [] then split_acc [] cs else w # split_acc [] cs)
      else split_acc (w @ [c]) cs)"

definition py_split :: "string \<Rightarrow> string list" where
  "py_split s = split_acc [] s"

text \<open>What \<open>split\<close> yields: words that are non-empty and free of whitespace.\<close>

definition word_ok :: "string \<Rightarrow> bool" where
  "word_ok w \<longleftrightarrow> w \<noteq> [] \<and> (\<forall>c \<in> set w. \<not> isspace c)"

definition lower_char :: "char \<Rightarrow> char" where
  "lower_char c =
     (case map_of (zip ''ABCDEFGHIJKLMNOPQRSTUVWXYZ'' ''abcdefghijklmnopqrstuvwxyz'') c of
        None \<Rightarrow> c | Some d \<Rightarrow> d)"

definition upper_char :: "char \<Rightarrow> char" where
  "upper_char c =
     (case map_of (zip ''abcdefghijklmnopqrstuvwxyz'' ''ABCDEFGHIJKLMNOPQRSTUVWXYZ'') c of
        None \<Rightarrow> c | Some d \<Rightarrow> d)"

definition py_lower :: "string \<Rightarrow> string" where
  "py_lower s = map lower_char s"

definition py_upper :: "string \<Rightarrow> string" where
  "py_upper s = map upper_char s"

fun py_join :: "string \<Rightarrow> string list \<Rightarrow> string" where
  "py_join sep [] = []"
| "py_join sep [x] = x"
| "py_join sep (x # y # ys) = x @ sep @ py_join sep (y # ys)"

definition slice_index :: "nat \<Rightarrow> int \<Rightarrow> nat" where
  "slice_index n k = (if k < 0 then nat (int n + k) else min (nat k) n)"

definition py_slice :: "int option \<Rightarrow> int option \<Rightarrow> 'a list \<Rightarrow> 'a list" where
  "py_slice lo hi xs =
     (let n = length xs;
          a = (case lo of None \<Rightarrow> 0 | Some k \<Rightarrow> slice_index n k);
          b = (case hi of None \<Rightarrow> n | Some k \<Rightarrow> slice_index n k)
      in take (b - a) (drop a xs))"

section \<open>Conversation memory (app/core/memory.py)\<close>

text \<open>
  Identifiers and clock readings come from outside the program
  (\<open>secrets.token_urlsafe\<close>, \<open>datetime.utcnow\<close>); each call receives the values
  it would read as an \<open>env\<close>. A timestamp is kept as its ISO text.
\<close>

record settings =
  max_conversation_history :: int
  max_context_tokens :: int

record env =
  fresh_session_id :: string
  fresh_message_id :: string
  now_created :: string
  now_message :: string
  now_last :: string

type_synonym py_dict = "(string \<times> string) list"

record message =
  role :: string
  content :: string
  message_id :: string
  timestamp :: string
  metadata :: py_dict

record session_meta =
  created_at :: string
  message_count :: int
  last_message_at :: "string option"

record conversation_memory =
  max_history :: int
  sessions :: "string \<rightharpoonup> message list"
  sessions_metadata :: "string \<rightharpoonup> session_meta"

definition Message :: "env \<Rightarrow> string \<Rightarrow> string \<Rightarrow> string option \<Rightarrow> py_dict option \<Rightarrow> message" where
  "Message e r c mid md =
     \<lparr> role = r, content = c,
       message_id = (case mid of None \<Rightarrow> take 16 (fresh_message_id e)
                     | Some i \<Rightarrow> if i = [] then take 16 (fresh_message_id e) else i),
       timestamp = now_message e,
       metadata = (case md of None \<Rightarrow> [] | Some d \<Rightarrow> d) \<rparr>"

definition to_dict :: "message \<Rightarrow> message" where
  "to_dict msg = \<lparr> role = role msg, content = content msg, message_id = message_id msg,
                   timestamp = timestamp msg, metadata = metadata msg \<rparr>"

definition ConversationMemory :: "settings \<Rightarrow> int option \<Rightarrow> conversation_memory" where
  "ConversationMemory st mh =
     \<lparr> max_history = (case mh of None \<Rightarrow> max_conversation_history st
                      | Some n \<Rightarrow> if n = 0 then max_conversation_history st else n),
       sessions = Map.empty, sessions_metadata = Map.empty \<rparr>"

definition create_session ::
  "env \<Rightarrow> string option \<Rightarrow> conversation_memory \<Rightarrow> string \<times> conversation_memory" where
  "create_session e sid m =
     (let session_id = (case sid of None \<Rightarrow> fresh_session_id e
                        | Some i \<Rightarrow> if i = [] then fresh_session_id e else i)
      in (session_id,
          m\<lparr> sessions := (sessions m)(session_id \<mapsto> []),
             sessions_metadata := (sessions_metadata m)(session_id \<mapsto>
                \<lparr> created_at = now_created e, message_count = 0, last_message_at = None \<rparr>) \<rparr>))"

text \<open>\<open>self._sessions\<close> is a \<open>defaultdict(list)\<close>: reading a missing key gives \<open>[]\<close>.\<close>

definition session_list :: "conversation_memory \<Rightarrow> string \<Rightarrow> message list" where
  "session_list m sid = (case sessions m sid of None \<Rightarrow> [] | Some l \<Rightarrow> l)"

definition add_message ::
  "env \<Rightarrow> string \<Rightarrow> string \<Rightarrow> string \<Rightarrow> py_dict option \<Rightarrow> conversation_memory
     \<Rightarrow> string \<times> conversation_memory" where
  "add_message e session_id r c md m0 =
     (let m1 = (if session_id \<in> dom (sessions m0) then m0
                else snd (create_session e (Some session_id) m0));
          msg = Message e r c None md;
          appended = session_list m1 session_id @ [msg];
          trimmed = (if int (length appended) > max_history m1
                     then py_slice (Some (- max_history m1)) None appended else appended);
          m2 = m1\<lparr> sessions := (sessions m1)(session_id \<mapsto> trimmed) \<rparr>;
          m3 = (case sessions_metadata m2 session_id of
                  None \<Rightarrow> m2
                | Some meta \<Rightarrow> m2\<lparr> sessions_metadata := (sessions_metadata m2)(session_id \<mapsto>
                      meta\<lparr> message_count := int (length trimmed),
                            last_message_at := Some (now_last e) \<rparr>) \<rparr>)
      in (message_id msg, m3))"

definition get_history :: "conversation_memory \<Rightarrow> string \<Rightarrow> int option \<Rightarrow> message list" where
  "get_history m session_id limit =
     (case sessions m session_id of
        None \<Rightarrow> []
      | Some messages \<Rightarrow>
          map to_dict (case limit of
                         None \<Rightarrow> messages
                       | Some k \<Rightarrow> if k = 0 then messages
                                  else py_slice (Some (- k)) None messages))"

text \<open>
  \<open>get_context\<close>: the loop walks the history backwards, prepending each rendered line
  until the next one would pass the budget. The estimate \<open>len(words) * 1.3\<close> is
  taken in exact arithmetic, \<open>13/10\<close> per word.
\<close>

definition render :: "message \<Rightarrow> string" where
  "render msg = py_upper (role msg) @ '': '' @ content msg"

definition msg_tokens :: "string \<Rightarrow> rat" where
  "msg_tokens msg_text = of_nat (length (py_split msg_text)) * (13 / 10)"

fun context_loop :: "int \<Rightarrow> message list \<Rightarrow> string list \<Rightarrow> rat \<Rightarrow> string list" where
  "context_loop max_tokens [] context_parts estimated_tokens = context_parts"
| "context_loop max_tokens (msg # rest) context_parts estimated_tokens =
     (let msg_text = render msg in
      if estimated_tokens + msg_tokens msg_text > of_int max_tokens then context_parts
      else context_loop max_tokens rest (msg_text # context_parts)
             (estimated_tokens + msg_tokens msg_text))"

text \<open>\<open>max_tokens or settings.max_context_tokens\<close>: no argument and \<open>0\<close> both give the default.\<close>

definition effective_max_tokens :: "settings \<Rightarrow> int option \<Rightarrow> int" where
  "effective_max_tokens st max_tokens =
     (case max_tokens of None \<Rightarrow> max_context_tokens st
      | Some n \<Rightarrow> if n = 0 then max_context_tokens st else n)"

definition context_parts :: "settings \<Rightarrow> conversation_memory \<Rightarrow> string \<Rightarrow> int option \<Rightarrow> string list" where
  "context_parts st m session_id max_tokens =
     context_loop (effective_max_tokens st max_tokens) (rev (get_history m session_id None)) [] 0"


text \<open>A run of \<open>add_message\<close> calls on one session, each with its own inputs.\<close>

type_synonym add_call = "env \<times> string \<times> string \<times> py_dict option"

fun add_messages :: "add_call list \<Rightarrow> string \<Rightarrow> conversation_memory \<Rightarrow> conversation_memory" where
  "add_messages [] session_id m = m"
| "add_messages ((e, r, c, md) # calls) session_id m =
     add_messages calls session_id (snd (add_message e session_id r c md m))"

definition call_message :: "add_call \<Rightarrow> message" where
  "call_message call = (case call of (e, r, c, md) \<Rightarrow> Message e r c None md)"

definition most_recent :: "nat \<Rightarrow> 'a list \<Rightarrow> 'a list" where
  "most_recent k xs = drop (length xs - k) xs"



section \<open>Chunker (app/modules/research/engine.py)\<close>

text \<open>
  \<open>range(0, stop, step)\<close> with \<open>stop \<ge> 0\<close>: a zero step raises \<open>ValueError\<close>, a
  negative step yields nothing, a positive step counts up to below \<open>stop\<close>.
\<close>

function range_from :: "nat \<Rightarrow> nat \<Rightarrow> nat \<Rightarrow> nat list" where
  "range_from i stop step =
     (if step = 0 \<or> stop \<le> i then [] else i # range_from (i + step) stop step)"
  by pat_completeness auto
termination
  by (relation "measure (\<lambda>(i, stop, step). stop - i)") auto

declare range_from.simps [simp del]

definition py_range :: "nat \<Rightarrow> int \<Rightarrow> py_error + nat list" where
  "py_range stop step =
     (if step = 0 then Inl ValueError
      else if step < 0 then Inr []
      else Inr (range_from 0 stop (nat step)))"

definition chunk_at :: "string list \<Rightarrow> int \<Rightarrow> nat \<Rightarrow> string" where
  "chunk_at words chunk_size i =
     py_join '' '' (py_slice (Some (int i)) (Some (int i + chunk_size)) words)"

definition chunk_text :: "string \<Rightarrow> int \<Rightarrow> int \<Rightarrow> py_error + string list" where
  "chunk_text text chunk_size overlap =
     (let words = py_split text in
      case py_range (length words) (chunk_size - overlap) of
        Inl err \<Rightarrow> Inl err
      | Inr starts \<Rightarrow>
          (let chunks = filter (\<lambda>chunk. chunk \<noteq> []) (map (chunk_at words chunk_size) starts)
           in Inr (if chunks \<noteq> [] then chunks else [text])))"

section \<open>Knowledge store (app/modules/research/rag.py)\<close>

text \<open>
  Two things are supplied by the Python runtime and enter as parameters: the MD5 digest
  in hexadecimal, and the order in which a \<open>set\<close> built from a list is iterated, which
  the language leaves open. Both dictionaries keep insertion order and are association
  lists; \<open>AList.update\<close> overwrites in place or appends, as a \<open>dict\<close> assignment does.
\<close>

record runtime =
  md5_hexdigest :: "string \<Rightarrow> string"
  set_order :: "string list \<Rightarrow> string list"

definition runtime_ok :: "runtime \<Rightarrow> bool" where
  "runtime_ok rt \<longleftrightarrow> (\<forall>xs. set (set_order rt xs) = set xs \<and> distinct (set_order rt xs))"

record rag_chunk =
  chunk_content :: string
  chunk_doc_id :: string
  chunk_metadata :: py_dict

record search_hit = rag_chunk +
  chunk_id :: string
  score :: rat

type_synonym postings_index = "(string \<times> string list) list"

record rag_store =
  chunks :: "(string \<times> rag_chunk) list"
  index :: postings_index

definition RAGStore :: rag_store where
  "RAGStore = \<lparr> chunks = [], index = [] \<rparr>"

definition postings :: "postings_index \<Rightarrow> string \<Rightarrow> string list" where
  "postings idx word = (case map_of idx word of None \<Rightarrow> [] | Some ids \<Rightarrow> ids)"

definition index_word :: "string \<Rightarrow> string \<Rightarrow> postings_index \<Rightarrow> postings_index" where
  "index_word cid word idx =
     (let idx1 = (case map_of idx word of None \<Rightarrow> AList.update word [] idx | Some ids \<Rightarrow> idx)
      in if cid \<in> set (postings idx1 word) then idx1
         else AList.update word (postings idx1 word @ [cid]) idx1)"

definition content_words :: "runtime \<Rightarrow> string \<Rightarrow> string list" where
  "content_words rt text = set_order rt (py_split (py_lower text))"

definition add_chunk ::
  "runtime \<Rightarrow> string \<Rightarrow> string \<Rightarrow> py_dict option \<Rightarrow> rag_store \<Rightarrow> string \<times> rag_store" where
  "add_chunk rt content_arg doc_id md s =
     (let cid = take 16 (md5_hexdigest rt content_arg);
          chunks1 = AList.update cid
             \<lparr> chunk_content = content_arg, chunk_doc_id = doc_id,
               chunk_metadata = (case md of None \<Rightarrow> [] | Some d \<Rightarrow> d) \<rparr> (chunks s);
          index1 = fold (index_word cid) (content_words rt content_arg) (index s)
      in (cid, \<lparr> chunks = chunks1, index = index1 \<rparr>))"

text \<open>\<open>chunk_scores.get(chunk_id, 0)\<close>\<close>

definition get0 :: "(string \<times> nat) list \<Rightarrow> string \<Rightarrow> nat" where
  "get0 chunk_scores cid = (case map_of chunk_scores cid of None \<Rightarrow> 0 | Some n \<Rightarrow> n)"

definition bump :: "string \<Rightarrow> (string \<times> nat) list \<Rightarrow> (string \<times> nat) list" where
  "bump cid chunk_scores = AList.update cid (get0 chunk_scores cid + 1) chunk_scores"

definition score_word :: "postings_index \<Rightarrow> string \<Rightarrow> (string \<times> nat) list \<Rightarrow> (string \<times> nat) list" where
  "score_word idx word chunk_scores =
     (case map_of idx word of None \<Rightarrow> chunk_scores | Some ids \<Rightarrow> fold bump ids chunk_scores)"

definition normalize_scores :: "nat \<Rightarrow> (string \<times> nat) list \<Rightarrow> (string \<times> rat) list" where
  "normalize_scores n chunk_scores =
     map (\<lambda>(cid, k). (cid, if n = 0 then of_nat k else of_nat k / of_nat n)) chunk_scores"

text \<open>\<open>sorted(..., reverse=True)\<close> is stable: equal keys keep their order.\<close>

definition sorted_desc :: "('a \<Rightarrow> rat) \<Rightarrow> 'a list \<Rightarrow> 'a list" where
  "sorted_desc key xs = sort_key (\<lambda>x. - key x) xs"

fun hits :: "(string \<times> rag_chunk) list \<Rightarrow> (string \<times> rat) list \<Rightarrow> py_error + search_hit list" where
  "hits cs [] = Inr []"
| "hits cs ((cid, sc) # rest) =
     (case map_of cs cid of
        None \<Rightarrow> Inl KeyError
      | Some ch \<Rightarrow>
          (case hits cs rest of
             Inl err \<Rightarrow> Inl err
           | Inr hs \<Rightarrow> Inr (\<lparr> chunk_content = chunk_content ch, chunk_doc_id = chunk_doc_id ch,
                             chunk_metadata = chunk_metadata ch, chunk_id = cid, score = sc \<rparr> # hs)))"

definition search :: "runtime \<Rightarrow> string \<Rightarrow> int \<Rightarrow> rag_store \<Rightarrow> py_error + search_hit list" where
  "search rt query_arg top_k s =
     (let query_words = content_words rt query_arg;
          chunk_scores = fold (score_word (index s)) query_words [];
          normalized = normalize_scores (length query_words) chunk_scores;
          sorted_chunks = py_slice None (Some top_k) (sorted_desc snd normalized)
      in hits (chunks s) sorted_chunks)"

definition unindex_word :: "string \<Rightarrow> string \<Rightarrow> postings_index \<Rightarrow> postings_index" where
  "unindex_word cid word idx =
     (case map_of idx word of
        None \<Rightarrow> idx
      | Some ids \<Rightarrow> if cid \<in> set ids then AList.update word (remove1 cid ids) idx else idx)"

text \<open>
  One turn of the deletion loop. The identifiers come from the dictionary's own keys,
  so \<open>pop\<close> finds each of them; the other branch leaves the store as it is.
\<close>

definition delete_chunk :: "runtime \<Rightarrow> string \<Rightarrow> rag_store \<Rightarrow> rag_store" where
  "delete_chunk rt cid s =
     (case map_of (chunks s) cid of
        None \<Rightarrow> s
      | Some chunk \<Rightarrow>
          \<lparr> chunks = AList.delete cid (chunks s),
            index = fold (unindex_word cid) (content_words rt (chunk_content chunk)) (index s) \<rparr>)"

definition to_delete :: "string \<Rightarrow> rag_store \<Rightarrow> string list" where
  "to_delete doc_id s = map fst (filter (\<lambda>(cid, chunk). chunk_doc_id chunk = doc_id) (chunks s))"

definition delete_by_doc :: "runtime \<Rightarrow> string \<Rightarrow> rag_store \<Rightarrow> nat \<times> rag_store" where
  "delete_by_doc rt doc_id s =
     (length (to_delete doc_id s), fold (delete_chunk rt) (to_delete doc_id s) s)"

definition clear :: "rag_store \<Rightarrow> rag_store" where
  "clear s = \<lparr> chunks = [], index = [] \<rparr>"

definition chunk_count :: "rag_store \<Rightarrow> nat" where
  "chunk_count s = length (chunks s)"

text \<open>
  The consistency of a store: both dictionaries have distinct keys, no postings list
  repeats an identifier, and an identifier stands under a word exactly when its stored
  chunk has that word.
\<close>

definition postings_distinct :: "rag_store \<Rightarrow> bool" where
  "postings_distinct s \<longleftrightarrow> (\<forall>(word, ids) \<in> set (index s). distinct ids)"

definition store_inv :: "rag_store \<Rightarrow> bool" where
  "store_inv s \<longleftrightarrow>
     distinct (map fst (chunks s)) \<and> distinct (map fst (index s)) \<and> postings_distinct s \<and>
     (\<forall>(word, ids) \<in> set (index s). \<forall>cid \<in> set ids.
        \<exists>chunk. map_of (chunks s) cid = Some chunk \<and>
                word \<in> set (py_split (py_lower (chunk_content chunk)))) \<and>
     (\<forall>(cid, chunk) \<in> set (chunks s). \<forall>word \<in> set (py_split (py_lower (chunk_content chunk))).
        cid \<in> set (postings (index s) word))"

section \<open>Query composition (app/modules/research/engine.py)\<close>

record engine_chunk =
  ec_doc_id :: string
  chunk_index :: nat
  ec_content :: string
  source :: string

record research_engine =
  engine_chunks :: "engine_chunk list"
  llm_generate :: "string \<Rightarrow> py_dict"

record query_result =
  answer :: string
  sources :: "string list"

definition chunk_score :: "runtime \<Rightarrow> string list \<Rightarrow> engine_chunk \<Rightarrow> rat" where
  "chunk_score rt question_words chunk =
     (let chunk_words = content_words rt (ec_content chunk) in
      if question_words \<noteq> []
      then of_nat (length (filter (\<lambda>w. w \<in> set chunk_words) question_words))
             / of_nat (length question_words)
      else 0)"

definition retrieve_relevant :: "runtime \<Rightarrow> research_engine \<Rightarrow> string \<Rightarrow> int \<Rightarrow> engine_chunk list" where
  "retrieve_relevant rt eng question top_k =
     (if engine_chunks eng = [] then []
      else
        (let question_words = content_words rt question;
             scored_chunks = map (\<lambda>chunk. (chunk_score rt question_words chunk, chunk)) (engine_chunks eng);
             sorted_chunks = sorted_desc fst scored_chunks
         in map snd (filter (\<lambda>(sc, chunk). sc > 0) (py_slice None (Some top_k) sorted_chunks))))"

definition format_chunk :: "engine_chunk \<Rightarrow> string" where
  "format_chunk c = ''[Source: '' @ source c @ '']'' @ [CHR 0x0A] @ ec_content c"

definition grounding_context :: "engine_chunk list \<Rightarrow> string" where
  "grounding_context relevant_chunks = py_join [CHR 0x0A, CHR 0x0A] (map format_chunk relevant_chunks)"

definition query_prompt :: "string \<Rightarrow> string \<Rightarrow> string" where
  "query_prompt context_text question =
     py_join [CHR 0x0A]
       [''Based on the following document excerpts, answer the question.'',
        ''If the answer is not in the documents, say so clearly.'',
        [],
        ''Documents:'',
        context_text,
        [],
        ''Question: '' @ question,
        [],
        ''Answer (cite sources when possible):'']"

definition no_documents_answer :: string where
  "no_documents_answer =
     ''I don'' @ [CHR 0x27] @ ''t have any documents to search. Please upload or ingest documents first.''"

definition query :: "runtime \<Rightarrow> research_engine \<Rightarrow> string \<Rightarrow> int \<Rightarrow> query_result" where
  "query rt eng question top_k =
     (let relevant_chunks = retrieve_relevant rt eng question top_k in
      if relevant_chunks = [] then \<lparr> answer = no_documents_answer, sources = [] \<rparr>
      else
        (let result = llm_generate eng (query_prompt (grounding_context relevant_chunks) question)
         in \<lparr> answer = (case map_of result ''response'' of None \<Rightarrow> [] | Some r \<Rightarrow> r),
              sources = set_order rt (map source relevant_chunks) \<rparr>))"

text \<open>The order the specification asks for: each source at its first occurrence.\<close>

definition first_seen :: "string list \<Rightarrow> string list" where
  "first_seen xs = rev (remdups (rev xs))"

section \<open>Example inputs\<close>

definition demo_settings :: settings where
  "demo_settings = \<lparr> max_conversation_history = 20, max_context_tokens = 4096 \<rparr>"

definition demo_env :: "string \<Rightarrow> env" where
  "demo_env tag = \<lparr> fresh_session_id = ''session-'' @ tag, fresh_message_id = ''message-'' @ tag,
                    now_created = ''2024-01-01T00:00:00'', now_message = ''2024-01-01T00:00:01'',
                    now_last = ''2024-01-01T00:00:02'' \<rparr>"

definition demo_calls :: "string list \<Rightarrow> add_call list" where
  "demo_calls texts = map (\<lambda>t. (demo_env t, ''user'', t, None)) texts"



definition demo_text_1000 :: string where
  "demo_text_1000 = py_join '' '' (replicate 1000 ''word'')"

text \<open>
  A runtime for the examples: the digests are the MD5 values of the texts used, and a
  set is iterated in the order \<open>remdups\<close> leaves.
\<close>

definition demo_md5 :: "string \<Rightarrow> string" where
  "demo_md5 text =
     (case map_of [(''Content 1'', ''81d6a1501eaff685ab50c7ff7d29d396''),
                   (''Content 2'', ''96870b4c66a4a32bfc53a76c802bd30a''),
                   (''Content 3'', ''e514979236a3b13cd9a4e81c43595f04''),
                   (''Python is a programming language'', ''94bcaa5331e66fc82a9fb47d56b740fe''),
                   (''JavaScript runs in browsers'', ''160c74f3441e5c4631f79074c76c23f6'')] text of
        None \<Rightarrow> text | Some digest \<Rightarrow> digest)"

definition demo_runtime :: runtime where
  "demo_runtime = \<lparr> md5_hexdigest = demo_md5, set_order = remdups \<rparr>"

definition demo_store_twice :: rag_store where
  "demo_store_twice =
     snd (add_chunk demo_runtime ''Content 1'' ''doc2'' None
       (snd (add_chunk demo_runtime ''Content 1'' ''doc1'' None RAGStore)))"

definition demo_store_docs :: rag_store where
  "demo_store_docs =
     snd (add_chunk demo_runtime ''Content 3'' ''doc2'' None
       (snd (add_chunk demo_runtime ''Content 2'' ''doc1'' None
         (snd (add_chunk demo_runtime ''Content 1'' ''doc1'' None RAGStore)))))"

definition demo_engine :: research_engine where
  "demo_engine =
     \<lparr> engine_chunks =
         [\<lparr> ec_doc_id = ''d1'', chunk_index = 0, ec_content = ''annual report'', source = ''a.txt'' \<rparr>,
          \<lparr> ec_doc_id = ''d2'', chunk_index = 0, ec_content = ''status report'', source = ''b.txt'' \<rparr>,
          \<lparr> ec_doc_id = ''d1'', chunk_index = 1, ec_content = ''final report'', source = ''a.txt'' \<rparr>],
       llm_generate = (\<lambda>prompt. [(''response'', ''ok'')]) \<rparr>"

section \<open>Session store: bounded history\<close>

lemma slice_last: "0 < k \<Longrightarrow> py_slice (Some (- k)) None xs = most_recent (nat k) xs"
proof -
  assume "0 < k"
  then have "nat (int (length xs) + - k) = length xs - nat k" by arith
  then show ?thesis
    using \<open>0 < k\<close> by (simp add: py_slice_def slice_index_def most_recent_def Let_def)
qed

lemma most_recent_all: "length xs \<le> k \<Longrightarrow> most_recent k xs = xs"
  by (simp add: most_recent_def)

lemma most_recent_append:
  "most_recent k (most_recent k xs @ ys) = most_recent k (xs @ ys)"
proof (cases "length xs \<le> k")
  case True
  then show ?thesis by (simp add: most_recent_def)
next
  case False
  then have d: "length xs - k + k = length xs"
    and b: "length ys + (length xs - k) = length xs + length ys - k"
    and c: "length xs + length ys - k - length xs = length ys - k"
    by arith+
  show ?thesis
    by (simp add: most_recent_def d b c)
qed

lemma session_list_create:
  "session_id \<notin> dom (sessions m) \<Longrightarrow>
   session_list (snd (create_session e (Some session_id) m)) session_id = []"
  by (auto simp: create_session_def session_list_def Let_def split: option.splits)

lemma max_history_create: "max_history (snd (create_session e sid m)) = max_history m"
  by (simp add: create_session_def Let_def)

lemma max_history_add_message:
  "max_history (snd (add_message e session_id r c md m)) = max_history m"
  by (simp add: add_message_def Let_def max_history_create split: option.splits)

lemma sessions_add_message:
  "0 < max_history m \<Longrightarrow>
   sessions (snd (add_message e session_id r c md m)) session_id =
     Some (most_recent (nat (max_history m)) (session_list m session_id @ [Message e r c None md]))"
proof -
  assume pos: "0 < max_history m"
  define m1 where "m1 = (if session_id \<in> dom (sessions m) then m
                else snd (create_session e (Some session_id) m))"
  have l1: "session_list m1 session_id = session_list m session_id"
    using session_list_create[of session_id m e]
    by (auto simp: m1_def session_list_def split: option.splits)
  have h1: "max_history m1 = max_history m"
    by (simp add: m1_def max_history_create)
  show ?thesis
    unfolding add_message_def Let_def m1_def[symmetric] l1 h1
    using pos
    by (auto simp: slice_last most_recent_all split: option.splits)
qed

lemma add_messages_sessions:
  "0 < max_history m \<Longrightarrow> calls \<noteq> [] \<Longrightarrow>
   sessions (add_messages calls session_id m) session_id =
     Some (most_recent (nat (max_history m)) (session_list m session_id @ map call_message calls))
   \<and> max_history (add_messages calls session_id m) = max_history m"
proof (induction calls arbitrary: m)
  case Nil
  then show ?case by simp
next
  case (Cons call calls)
  obtain e r c md where call: "call = (e, r, c, md)" by (cases call) auto
  let ?m' = "snd (add_message e session_id r c md m)"
  have mh: "max_history ?m' = max_history m" by (rule max_history_add_message)
  have s: "sessions ?m' session_id =
     Some (most_recent (nat (max_history m)) (session_list m session_id @ [Message e r c None md]))"
    using Cons.prems(1) by (rule sessions_add_message)
  show ?case
  proof (cases "calls = []")
    case True
    then show ?thesis using s mh by (simp add: call call_message_def)
  next
    case False
    have pos': "0 < max_history ?m'" using mh Cons.prems(1) by simp
    have sl: "session_list ?m' session_id =
       most_recent (nat (max_history m)) (session_list m session_id @ [call_message call])"
      using s by (simp add: session_list_def call call_message_def)
    have "most_recent (nat (max_history m)) (session_list ?m' session_id @ map call_message calls)
        = most_recent (nat (max_history m)) (session_list m session_id @ map call_message (call # calls))"
      unfolding sl by (simp add: most_recent_append)
    then show ?thesis
      using Cons.IH[OF pos' False] mh by (simp add: call)
  qed
qed

text \<open>
  C1. Take a memory whose bound \<open>max_history\<close> is positive and any non-empty run of
  \<open>add_message\<close> calls on one session. Afterwards the session's list is the last
  \<open>max_history\<close> entries of what was there followed by the appended messages, in the
  order of insertion; it is never longer than \<open>max_history\<close>; and \<open>get_history\<close>
  returns exactly that list. Every prefix of a run is a run, so this holds after each call.
\<close>

theorem add_message_bounded_fifo:
  assumes "0 < max_history m" and "calls \<noteq> []"
  shows "session_list (add_messages calls session_id m) session_id
           = most_recent (nat (max_history m)) (session_list m session_id @ map call_message calls)
       \<and> int (length (session_list (add_messages calls session_id m) session_id)) \<le> max_history m
       \<and> get_history (add_messages calls session_id m) session_id None
           = map to_dict (most_recent (nat (max_history m))
                            (session_list m session_id @ map call_message calls))"
proof -
  let ?m' = "add_messages calls session_id m"
  let ?want = "most_recent (nat (max_history m)) (session_list m session_id @ map call_message calls)"
  have s: "sessions ?m' session_id = Some ?want"
    using add_messages_sessions[OF assms] by simp
  have len: "length ?want \<le> nat (max_history m)"
    by (simp add: most_recent_def)
  have "int (length ?want) \<le> max_history m"
    using len assms(1) by linarith
  then show ?thesis
    using s by (simp add: session_list_def get_history_def)
qed

theorem add_message_bounded_fifo_witness:
  "0 < max_history (ConversationMemory demo_settings (Some 3))
   \<and> demo_calls [''m0'', ''m1'', ''m2'', ''m3'', ''m4''] \<noteq> []
   \<and> map content (get_history (add_messages (demo_calls [''m0'', ''m1'', ''m2'', ''m3'', ''m4''])
        ''s'' (ConversationMemory demo_settings (Some 3))) ''s'' None) = [''m2'', ''m3'', ''m4'']"
  using add_message_bounded_fifo[of "ConversationMemory demo_settings (Some 3)"
          "demo_calls [''m0'', ''m1'', ''m2'', ''m3'', ''m4'']" "''s''"]
  by (simp add: ConversationMemory_def demo_calls_def session_list_def most_recent_def
        call_message_def Message_def to_dict_def)


section \<open>Context window\<close>












section \<open>Words, joins and ranges\<close>

lemma split_acc_words_ok:
  "(\<forall>c \<in> set acc. \<not> isspace c) \<Longrightarrow> \<forall>w \<in> set (split_acc acc s). word_ok w"
proof (induction s arbitrary: acc)
  case Nil
  then show ?case by (auto simp: word_ok_def)
next
  case (Cons c cs)
  show ?case
  proof (cases "isspace c")
    case True
    have "\<forall>w \<in> set (split_acc [] cs). word_ok w"
      using Cons.IH[of "[]"] by simp
    then show ?thesis
      using True Cons.prems by (auto simp: word_ok_def)
  next
    case False
    have "\<forall>w \<in> set (split_acc (acc @ [c]) cs). word_ok w"
      using Cons.IH[of "acc @ [c]"] Cons.prems False by simp
    then show ?thesis
      using False by simp
  qed
qed

lemma py_split_Nil: "py_split [] = []"
  by (simp add: py_split_def)

lemma py_split_words_ok: "w \<in> set (py_split s) \<Longrightarrow> word_ok w"
  using split_acc_words_ok[of "[]" s] by (simp add: py_split_def)

lemma split_acc_nospace:
  "(\<forall>c \<in> set v. \<not> isspace c) \<Longrightarrow> split_acc acc (v @ rest) = split_acc (acc @ v) rest"
  by (induction v arbitrary: acc) auto

lemma py_split_word: "word_ok w \<Longrightarrow> py_split w = [w]"
  using split_acc_nospace[of w "[]" "[]"] by (simp add: py_split_def word_ok_def)

lemma split_acc_sep:
  "isspace c \<Longrightarrow> split_acc acc (a @ c # b) = split_acc acc a @ split_acc [] b"
  by (induction a arbitrary: acc) auto

lemma py_split_sep: "isspace c \<Longrightarrow> py_split (a @ c # b) = py_split a @ py_split b"
  by (simp add: py_split_def split_acc_sep)

lemma isspace_space: "isspace (CHR '' '')"
  by (simp add: isspace_def whitespace_def)

lemma py_split_join: "py_split (py_join '' '' xs) = concat (map py_split xs)"
proof (induction xs rule: induct_list012)
  case 1
  show ?case by (simp add: py_split_Nil)
next
  case (2 x)
  show ?case by simp
next
  case (3 x y ys)
  then show ?case
    using py_split_sep[OF isspace_space, of x "py_join '' '' (y # ys)"] by simp
qed

lemma py_split_join_words:
  "\<forall>w \<in> set ws. word_ok w \<Longrightarrow> py_split (py_join '' '' ws) = ws"
  by (induction ws) (simp_all add: py_split_join py_split_word py_split_Nil)

lemma py_join_nonempty: "ws \<noteq> [] \<Longrightarrow> \<forall>w \<in> set ws. word_ok w \<Longrightarrow> py_join sep ws \<noteq> []"
  by (induction sep ws rule: py_join.induct) (auto simp: word_ok_def)

lemma range_from_bound: "s \<in> set (range_from i n step) \<Longrightarrow> s < n"
proof (induction i n step rule: range_from.induct)
  case (1 i stop step)
  then show ?case
    by (subst (asm) (2) range_from.simps) (auto split: if_splits)
qed

lemma range_from_cover:
  "0 < step \<Longrightarrow> i \<le> j \<Longrightarrow> j < n \<Longrightarrow> \<exists>s \<in> set (range_from i n step). s \<le> j \<and> j < s + step"
proof (induction i n step rule: range_from.induct)
  case (1 i stop step)
  show ?case
  proof (cases "j < i + step")
    case True
    then show ?thesis using 1(2-) by (subst range_from.simps) auto
  next
    case False
    then have "\<exists>s \<in> set (range_from (i + step) stop step). s \<le> j \<and> j < s + step"
      using 1 by auto
    then show ?thesis using 1(2-) by (subst range_from.simps) auto
  qed
qed

lemma range_from_nonempty: "0 < step \<Longrightarrow> i < n \<Longrightarrow> range_from i n step \<noteq> []"
  by (subst range_from.simps) auto

lemma range_1000: "length (range_from 0 1000 450) = 3"
  by code_simp

section \<open>Chunker\<close>

lemma slice_window:
  assumes "0 < sz" "s < length ws"
  shows "py_slice (Some (int s)) (Some (int s + sz)) ws = take (nat sz) (drop s ws)"
proof -
  have lo: "slice_index (length ws) (int s) = s"
    using assms by (simp add: slice_index_def)
  have hi: "slice_index (length ws) (int s + sz) = min (s + nat sz) (length ws)"
    using assms by (simp add: slice_index_def nat_add_distrib)
  have "take (min (s + nat sz) (length ws) - s) (drop s ws) = take (nat sz) (drop s ws)"
  proof (cases "s + nat sz \<le> length ws")
    case True
    then show ?thesis by (simp add: min_def)
  next
    case False
    then show ?thesis by (simp add: min_def)
  qed
  then show ?thesis
    unfolding py_slice_def Let_def option.case lo hi .
qed

lemma window_words_ok:
  "w \<in> set (take k (drop s (py_split text))) \<Longrightarrow> word_ok w"
  by (meson in_set_dropD in_set_takeD py_split_words_ok)

lemma chunk_at_window:
  assumes "0 < sz" "s < length (py_split text)"
  shows "chunk_at (py_split text) sz s \<noteq> []"
    and "py_split (chunk_at (py_split text) sz s) = take (nat sz) (drop s (py_split text))"
proof -
  let ?win = "take (nat sz) (drop s (py_split text))"
  have ok: "\<forall>w \<in> set ?win. word_ok w" using window_words_ok by blast
  have ne: "?win \<noteq> []" using assms by simp
  show "chunk_at (py_split text) sz s \<noteq> []"
    using py_join_nonempty[OF ne ok] by (simp add: chunk_at_def slice_window[OF assms])
  show "py_split (chunk_at (py_split text) sz s) = ?win"
    using py_split_join_words[OF ok] by (simp add: chunk_at_def slice_window[OF assms])
qed

lemma chunk_text_windows:
  assumes "0 \<le> overlap" "overlap < chunk_size"
  shows "chunk_text text chunk_size overlap =
           Inr (if py_split text = [] then [text]
                else map (chunk_at (py_split text) chunk_size)
                       (range_from 0 (length (py_split text)) (nat (chunk_size - overlap))))"
proof -
  let ?ws = "py_split text"
  let ?starts = "range_from 0 (length ?ws) (nat (chunk_size - overlap))"
  have sz: "0 < chunk_size" using assms by simp
  have keep: "filter (\<lambda>chunk. chunk \<noteq> []) (map (chunk_at ?ws chunk_size) ?starts)
                = map (chunk_at ?ws chunk_size) ?starts"
    using chunk_at_window(1)[OF sz] range_from_bound by (auto simp: filter_id_conv)
  have r: "py_range (length ?ws) (chunk_size - overlap) = Inr ?starts"
    using assms by (simp add: py_range_def)
  show ?thesis
  proof (cases "?ws = []")
    case True
    then have "?starts = []" by (subst range_from.simps) simp
    then show ?thesis using True r by (simp add: chunk_text_def Let_def)
  next
    case False
    then have "?starts \<noteq> []"
      using range_from_nonempty[of "nat (chunk_size - overlap)" 0 "length ?ws"] assms by simp
    then show ?thesis using False r keep by (simp add: chunk_text_def Let_def)
  qed
qed

lemma windows_cover:
  assumes "0 \<le> overlap" "overlap < chunk_size" "w \<in> set (py_split text)"
  shows "\<exists>s \<in> set (range_from 0 (length (py_split text)) (nat (chunk_size - overlap))).
           w \<in> set (py_split (chunk_at (py_split text) chunk_size s))"
proof -
  let ?ws = "py_split text"
  obtain j where j: "j < length ?ws" "?ws ! j = w"
    using assms(3) by (auto simp: in_set_conv_nth)
  obtain s where s: "s \<in> set (range_from 0 (length ?ws) (nat (chunk_size - overlap)))"
      "s \<le> j" "j < s + nat (chunk_size - overlap)"
    using range_from_cover[of "nat (chunk_size - overlap)" 0 j "length ?ws"] assms j by auto
  have sn: "s < length ?ws" using s(1) by (rule range_from_bound)
  have sz: "0 < chunk_size" using assms by simp
  have in_win: "j - s < nat chunk_size" using s assms by linarith
  have "take (nat chunk_size) (drop s ?ws) ! (j - s) = w"
    using in_win j s(2) by simp
  moreover have "j - s < length (take (nat chunk_size) (drop s ?ws))"
    using in_win j s(2) by simp
  ultimately have "w \<in> set (take (nat chunk_size) (drop s ?ws))"
    by (metis nth_mem)
  then have "w \<in> set (py_split (chunk_at ?ws chunk_size s))"
    using chunk_at_window(2)[OF sz sn] by simp
  with s(1) show ?thesis by blast
qed

lemma demo_text_1000_words: "length (py_split demo_text_1000) = 1000"
proof -
  have "word_ok ''word''" by (simp add: word_ok_def isspace_def whitespace_def)
  then have "py_split demo_text_1000 = replicate 1000 ''word''"
    unfolding demo_text_1000_def by (intro py_split_join_words) simp
  then show ?thesis by simp
qed

lemma demo_chunks: 
  "chunk_text ''a b c'' 2 1 = Inr [''a b'', ''b c'', ''c'']"
  "chunk_text ''a b c'' 2 0 = Inr [''a b'', ''c'']"
  by code_simp+

text \<open>
  C6. For \<open>chunk_size > overlap \<ge> 0\<close> the chunker returns without error a non-empty
  list of chunks; every word of the text is a word of the chunks joined by spaces; a text
  without words comes back as the single chunk \<open>[text]\<close>; and a text of exactly 1000
  words, cut with size 500 and overlap 50, gives more than one chunk.
\<close>

theorem chunk_text_covers:
  assumes "0 \<le> overlap" "overlap < chunk_size"
  shows "\<exists>chunks. chunk_text text chunk_size overlap = Inr chunks \<and> chunks \<noteq> []
           \<and> set (py_split text) \<subseteq> set (py_split (py_join '' '' chunks))
           \<and> (py_split text = [] \<longrightarrow> chunks = [text])
           \<and> (chunk_size = 500 \<and> overlap = 50 \<and> length (py_split text) = 1000
                \<longrightarrow> 1 < length chunks)"
proof -
  let ?ws = "py_split text"
  let ?starts = "range_from 0 (length ?ws) (nat (chunk_size - overlap))"
  let ?chunks = "if ?ws = [] then [text] else map (chunk_at ?ws chunk_size) ?starts"
  have eq: "chunk_text text chunk_size overlap = Inr ?chunks"
    using assms by (rule chunk_text_windows)
  have ne: "?chunks \<noteq> []"
    using range_from_nonempty[of "nat (chunk_size - overlap)" 0 "length ?ws"] assms by simp
  have cover: "set ?ws \<subseteq> set (py_split (py_join '' '' ?chunks))"
  proof (cases "?ws = []")
    case True
    then show ?thesis by simp
  next
    case False
    show ?thesis
    proof
      fix w assume "w \<in> set ?ws"
      then obtain s where "s \<in> set ?starts" "w \<in> set (py_split (chunk_at ?ws chunk_size s))"
        using windows_cover[OF assms] by blast
      then show "w \<in> set (py_split (py_join '' '' ?chunks))"
        using False by (auto simp: py_split_join)
    qed
  qed
  have many: "chunk_size = 500 \<and> overlap = 50 \<and> length ?ws = 1000 \<longrightarrow> 1 < length ?chunks"
    using range_1000 by auto
  show ?thesis
    using eq ne cover many by (intro exI[of _ ?chunks]) simp
qed

theorem chunk_text_covers_witness:
  "(0::int) \<le> 1 \<and> (1::int) < 2 \<and> chunk_text ''a b c'' 2 1 = Inr [''a b'', ''b c'', ''c'']
   \<and> set (py_split ''a b c'') \<subseteq> set (py_split (py_join '' '' [''a b'', ''b c'', ''c'']))
   \<and> (0::int) \<le> 50 \<and> (50::int) < 500 \<and> length (py_split demo_text_1000) = 1000
   \<and> (\<exists>chunks. chunk_text demo_text_1000 500 50 = Inr chunks \<and> 1 < length chunks)"
  using chunk_text_covers[of 1 2 "''a b c''"] chunk_text_covers[of 50 500 demo_text_1000]
    demo_text_1000_words demo_chunks(1)
  by auto

text \<open>
  C7 (as the code has it). With \<open>overlap \<ge> chunk_size\<close> the stride is not positive.
  The chunker still returns, the model being a total function: when the two are equal
  \<open>range\<close> raises \<open>ValueError\<close>, and when the overlap is larger the loop body never
  runs and the result is the whole input as one chunk.
\<close>

theorem chunk_text_overlap_ge_size:
  "chunk_size \<le> overlap \<Longrightarrow>
   chunk_text text chunk_size overlap = (if overlap = chunk_size then Inl ValueError else Inr [text])"
  by (simp add: chunk_text_def py_range_def Let_def)

theorem chunk_text_overlap_ge_size_witness:
  "(2::int) \<le> 2 \<and> chunk_text ''a b c'' 2 2 = Inl ValueError
   \<and> (2::int) \<le> 3 \<and> chunk_text ''a b c'' 2 3 = Inr [''a b c'']"
  using chunk_text_overlap_ge_size[of 2 2 "''a b c''"] chunk_text_overlap_ge_size[of 2 3 "''a b c''"]
  by simp

text \<open>
  C7 as stated fails: with size 2 and overlap 2 the call fails, and with overlap 3 the
  result differs from the one for overlap 0.
\<close>

theorem chunk_text_overlap_counterexample:
  "chunk_text ''a b c'' 2 2 = Inl ValueError
   \<and> chunk_text ''a b c'' 2 3 \<noteq> chunk_text ''a b c'' 2 0"
  by (simp add: demo_chunks(2)) (simp add: chunk_text_def py_range_def Let_def)

section \<open>Knowledge store: adding and deleting\<close>

lemma set_update_subset: "set (AList.update k v al) \<subseteq> insert (k, v) (set al)"
  by (induction al) auto

lemma length_update_present: "k \<in> fst ` set al \<Longrightarrow> length (AList.update k v al) = length al"
  by (induction al) auto

lemma postings_in_index: "map_of idx w = Some ids \<Longrightarrow> (w, ids) \<in> set idx"
  by (rule map_of_SomeD)

lemma map_of_index_word:
  "map_of (index_word cid w idx) =
     (map_of idx)(w \<mapsto> (if cid \<in> set (postings idx w) then postings idx w
                        else postings idx w @ [cid]))"
  by (auto simp: index_word_def postings_def Let_def update_conv' split: option.splits)

lemma postings_index_word:
  "postings (index_word cid w idx) w' =
     (if w' = w \<and> cid \<notin> set (postings idx w) then postings idx w @ [cid] else postings idx w')"
  unfolding postings_def[of "index_word cid w idx"] map_of_index_word
  by (auto simp: postings_def)

lemma postings_fold_index_word:
  "postings (fold (index_word cid) ws idx) w' =
     (if w' \<in> set ws \<and> cid \<notin> set (postings idx w') then postings idx w' @ [cid]
      else postings idx w')"
  by (induction ws arbitrary: idx) (auto simp: postings_index_word)

lemma index_word_present:
  "cid \<in> set (postings idx w) \<Longrightarrow> index_word cid w idx = idx"
  by (auto simp: index_word_def postings_def Let_def split: option.splits)

lemma fold_index_word_present:
  "\<forall>w \<in> set ws. cid \<in> set (postings idx w) \<Longrightarrow> fold (index_word cid) ws idx = idx"
  by (induction ws arbitrary: idx) (simp_all add: index_word_present)

lemma keys_index_word: "fst ` set (index_word cid w idx) = insert w (fst ` set idx)"
  by (auto simp: index_word_def Let_def dom_update split: option.splits dest: map_of_SomeD
      simp: rev_image_eqI)

lemma distinct_keys_index_word:
  "distinct (map fst idx) \<Longrightarrow> distinct (map fst (index_word cid w idx))"
  by (simp add: index_word_def Let_def distinct_update split: option.splits)

lemma distinct_keys_fold_index_word:
  "distinct (map fst idx) \<Longrightarrow> distinct (map fst (fold (index_word cid) ws idx))"
  by (induction ws arbitrary: idx) (simp_all add: distinct_keys_index_word)

lemma entries_index_word:
  assumes "(w', ids') \<in> set (index_word cid w idx)"
  shows "(w', ids') \<in> set idx \<or> ids' = [] \<or>
         (\<exists>ids. ((w, ids) \<in> set idx \<or> ids = []) \<and> cid \<notin> set ids \<and> ids' = ids @ [cid])"
proof (cases "map_of idx w")
  case None
  then have "index_word cid w idx = AList.update w [cid] (AList.update w [] idx)"
    by (simp add: index_word_def Let_def postings_def update_conv')
  then have "(w', ids') \<in> insert (w, [cid]) (insert (w, []) (set idx))"
    using assms set_update_subset[of w "[cid]" "AList.update w [] idx"] set_update_subset[of w "[]" idx]
    by auto
  then show ?thesis by auto
next
  case (Some ids)
  then have mem: "(w, ids) \<in> set idx" by (rule map_of_SomeD)
  show ?thesis
  proof (cases "cid \<in> set ids")
    case True
    then show ?thesis using assms Some by (simp add: index_word_def Let_def postings_def)
  next
    case False
    then have "index_word cid w idx = AList.update w (ids @ [cid]) idx"
      using Some by (simp add: index_word_def Let_def postings_def)
    then have "(w', ids') \<in> insert (w, ids @ [cid]) (set idx)"
      using assms set_update_subset[of w "ids @ [cid]" idx] by auto
    then show ?thesis using mem False by auto
  qed
qed

lemma distinct_entries_index_word:
  assumes "\<forall>(w, ids) \<in> set idx. distinct ids"
  shows "\<forall>(w', ids') \<in> set (index_word cid w idx). distinct ids'"
proof -
  have "distinct ids'" if "(w', ids') \<in> set (index_word cid w idx)" for w' ids'
    using entries_index_word[OF that] assms by auto
  then show ?thesis by auto
qed

lemma distinct_entries_fold_index_word:
  "\<forall>(w, ids) \<in> set idx. distinct ids \<Longrightarrow>
   \<forall>(w', ids') \<in> set (fold (index_word cid) ws idx). distinct ids'"
proof (induction ws arbitrary: idx)
  case Nil
  then show ?case by simp
next
  case (Cons w ws)
  show ?case
    using Cons.IH[OF distinct_entries_index_word[OF Cons.prems, of cid w]] by simp
qed

lemma postings_distinct_add_chunk:
  "postings_distinct s \<Longrightarrow> postings_distinct (snd (add_chunk rt c d md s))"
  using distinct_entries_fold_index_word[of "index s"]
  by (simp add: postings_distinct_def add_chunk_def Let_def)

lemma count_list_distinct: "distinct xs \<Longrightarrow> count_list xs x \<le> 1"
  by (induction xs) (auto simp: count_list_0_iff)

lemma add_chunk_again:
  fixes rt c d1 md1 d2 md2 s
  defines "s1 \<equiv> snd (add_chunk rt c d1 md1 s)"
  defines "s2 \<equiv> snd (add_chunk rt c d2 md2 s1)"
  shows "index s2 = index s1" and "chunk_count s2 = chunk_count s1"
proof -
  let ?cid = "take 16 (md5_hexdigest rt c)"
  let ?ws = "content_words rt c"
  have i1: "index s1 = fold (index_word ?cid) ?ws (index s)"
    by (simp add: s1_def add_chunk_def Let_def)
  have "\<forall>w \<in> set ?ws. ?cid \<in> set (postings (index s1) w)"
    unfolding i1 by (simp add: postings_fold_index_word)
  then show "index s2 = index s1"
    by (simp add: s2_def add_chunk_def Let_def fold_index_word_present)
  have "?cid \<in> fst ` set (chunks s1)"
    by (simp add: s1_def add_chunk_def Let_def dom_update)
  then show "chunk_count s2 = chunk_count s1"
    by (simp add: s2_def add_chunk_def Let_def chunk_count_def length_update_present)
qed

lemma demo_runtime_ok: "runtime_ok demo_runtime"
  by (simp add: runtime_ok_def demo_runtime_def)

lemma chunks_delete_chunk: "chunks (delete_chunk rt cid s) = AList.delete cid (chunks s)"
proof (cases "map_of (chunks s) cid")
  case None
  then have "cid \<notin> fst ` set (chunks s)" by (simp add: map_of_eq_None_iff)
  then show ?thesis using None by (simp add: delete_chunk_def)
next
  case (Some ch)
  then show ?thesis by (simp add: delete_chunk_def)
qed

lemma chunks_fold_delete_chunk:
  "chunks (fold (delete_chunk rt) ids s) = filter (\<lambda>(k, ch). k \<notin> set ids) (chunks s)"
proof (induction ids arbitrary: s)
  case Nil
  then show ?case by simp
next
  case (Cons cid ids)
  have "filter (\<lambda>(k, ch). k \<notin> set ids) (AList.delete cid (chunks s))
          = filter (\<lambda>(k, ch). k \<notin> set (cid # ids)) (chunks s)"
    by (auto simp: AList.delete_eq intro: filter_cong)
  then show ?case by (simp add: Cons.IH chunks_delete_chunk)
qed

lemma to_delete_iff:
  assumes "distinct (map fst (chunks s))" "(k, ch) \<in> set (chunks s)"
  shows "k \<in> set (to_delete d s) \<longleftrightarrow> chunk_doc_id ch = d"
proof
  assume "k \<in> set (to_delete d s)"
  then obtain ch' where "(k, ch') \<in> set (chunks s)" "chunk_doc_id ch' = d"
    by (auto simp: to_delete_def)
  then show "chunk_doc_id ch = d"
    using assms eq_key_imp_eq_value by fastforce
next
  assume "chunk_doc_id ch = d"
  then show "k \<in> set (to_delete d s)"
    using assms(2) by (force simp: to_delete_def)
qed

lemma chunks_delete_by_doc:
  assumes "distinct (map fst (chunks s))"
  shows "chunks (snd (delete_by_doc rt d s)) = filter (\<lambda>(k, ch). chunk_doc_id ch \<noteq> d) (chunks s)"
proof -
  have "filter (\<lambda>(k, ch). k \<notin> set (to_delete d s)) (chunks s)
          = filter (\<lambda>(k, ch). chunk_doc_id ch \<noteq> d) (chunks s)"
    using to_delete_iff[OF assms] by (intro filter_cong) auto
  then show ?thesis by (simp add: delete_by_doc_def chunks_fold_delete_chunk)
qed

lemma count_delete_by_doc:
  "fst (delete_by_doc rt d s) = length (filter (\<lambda>(k, ch). chunk_doc_id ch = d) (chunks s))"
  by (simp add: delete_by_doc_def to_delete_def)

lemma map_of_filter_value:
  "distinct (map fst al) \<Longrightarrow>
   map_of (filter (\<lambda>(k, v). Q v) al) k =
     (case map_of al k of None \<Rightarrow> None | Some v \<Rightarrow> if Q v then Some v else None)"
proof (induction al)
  case Nil
  then show ?case by simp
next
  case (Cons p al)
  obtain k' v' where p: "p = (k', v')" by (cases p)
  show ?case
  proof (cases "k' = k")
    case True
    then have "k \<notin> fst ` set al" using Cons.prems p by auto
    then have "k \<notin> fst ` set (filter (\<lambda>(k, v). Q v) al)" by auto
    then have "map_of (filter (\<lambda>(k, v). Q v) al) k = None" by (simp add: map_of_eq_None_iff)
    then show ?thesis using True p by simp
  next
    case False
    then show ?thesis using Cons p by simp
  qed
qed

lemma length_filter_delete:
  "distinct (map fst al) \<Longrightarrow> map_of al k = Some v \<Longrightarrow>
   length (filter P al) = (if P (k, v) then 1 else 0) + length (filter P (AList.delete k al))"
proof (induction al)
  case Nil
  then show ?case by simp
next
  case (Cons p al)
  obtain k' v' where p: "p = (k', v')" by (cases p)
  show ?case
  proof (cases "k' = k")
    case True
    then have "k \<notin> fst ` set al" using Cons.prems p by auto
    then have "AList.delete k al = al" by simp
    then show ?thesis using True p Cons.prems by simp
  next
    case False
    then show ?thesis using Cons p by simp
  qed
qed

lemma demo_store_twice_eval:
  "demo_store_twice =
     \<lparr> chunks = [(''81d6a1501eaff685'',
                   \<lparr> chunk_content = ''Content 1'', chunk_doc_id = ''doc2'', chunk_metadata = [] \<rparr>)],
       index = [(''content'', [''81d6a1501eaff685'']), (''1'', [''81d6a1501eaff685''])] \<rparr>"
  by code_simp

lemma demo_first_add:
  "add_chunk demo_runtime ''Content 1'' ''doc1'' None RAGStore =
     (''81d6a1501eaff685'',
      \<lparr> chunks = [(''81d6a1501eaff685'',
                   \<lparr> chunk_content = ''Content 1'', chunk_doc_id = ''doc1'', chunk_metadata = [] \<rparr>)],
       index = [(''content'', [''81d6a1501eaff685'']), (''1'', [''81d6a1501eaff685''])] \<rparr>)"
  by code_simp

lemma demo_store_twice_fold:
  "snd (add_chunk demo_runtime ''Content 1'' ''doc2'' None
       (snd (add_chunk demo_runtime ''Content 1'' ''doc1'' None RAGStore))) = demo_store_twice"
  "fst (add_chunk demo_runtime ''Content 1'' ''doc1'' None RAGStore) = ''81d6a1501eaff685''"
  by (simp_all add: demo_store_twice_def demo_first_add)

text \<open>
  C5. The identifier returned by \<open>add_chunk\<close> depends on the content alone: document,
  metadata and store play no part. Adding the same content a second time, under any
  document and metadata, leaves the postings index and the number of chunks as the first
  add left them; and in a store whose postings lists have no repetitions, no list holds
  the identifier more than once afterwards.
\<close>

theorem add_chunk_idempotent:
  fixes rt c d1 md1 d2 md2 s s'
  defines "s1 \<equiv> snd (add_chunk rt c d1 md1 s)"
  defines "s2 \<equiv> snd (add_chunk rt c d2 md2 s1)"
  assumes "postings_distinct s"
  shows "fst (add_chunk rt c d1 md1 s) = fst (add_chunk rt c d2 md2 s')
       \<and> index s2 = index s1
       \<and> chunk_count s2 = chunk_count s1
       \<and> (\<forall>(w, ids) \<in> set (index s2). count_list ids (fst (add_chunk rt c d1 md1 s)) \<le> 1)"
proof -
  have "postings_distinct s2"
    unfolding s2_def s1_def using assms(3) by (intro postings_distinct_add_chunk)
  then have "\<forall>(w, ids) \<in> set (index s2). count_list ids (fst (add_chunk rt c d1 md1 s)) \<le> 1"
    using count_list_distinct by (fastforce simp: postings_distinct_def)
  moreover have "fst (add_chunk rt c d1 md1 s) = fst (add_chunk rt c d2 md2 s')"
    by (simp add: add_chunk_def Let_def)
  ultimately show ?thesis
    using add_chunk_again[of rt c d2 md2 d1 md1 s] by (simp add: s1_def s2_def)
qed

theorem add_chunk_idempotent_witness:
  "postings_distinct RAGStore
   \<and> fst (add_chunk demo_runtime ''Content 1'' ''doc1'' None RAGStore) = ''81d6a1501eaff685''
   \<and> index demo_store_twice = index (snd (add_chunk demo_runtime ''Content 1'' ''doc1'' None RAGStore))
   \<and> chunk_count demo_store_twice = 1
   \<and> map (\<lambda>(w, ids). count_list ids ''81d6a1501eaff685'') (index demo_store_twice) = [1, 1]"
proof -
  have pd: "postings_distinct RAGStore"
    by (simp add: postings_distinct_def RAGStore_def)
  note inst = add_chunk_idempotent[where rt = demo_runtime and c = "''Content 1''"
      and ?d1.0 = "''doc1''" and ?d2.0 = "''doc2''" and ?md1.0 = None and ?md2.0 = None
      and s = RAGStore and s' = RAGStore, OF pd, unfolded demo_store_twice_fold]
  have counts: "map (\<lambda>(w, ids). count_list ids ''81d6a1501eaff685'') (index demo_store_twice) = [1, 1]"
    by (simp add: demo_store_twice_eval)
  have "index demo_store_twice = index (snd (add_chunk demo_runtime ''Content 1'' ''doc1'' None RAGStore))"
    and "chunk_count demo_store_twice = chunk_count (snd (add_chunk demo_runtime ''Content 1'' ''doc1'' None RAGStore))"
    using inst by blast+
  then show ?thesis
    using pd counts by (simp add: demo_store_twice_fold) (simp add: demo_first_add chunk_count_def)
qed

text \<open>
  C9. Content added under \<open>d1\<close> and added again under a different \<open>d2\<close> is stored
  once, with document \<open>d2\<close>. Deleting \<open>d1\<close> then leaves that chunk in place and
  counts only the other chunks of \<open>d1\<close>; deleting \<open>d2\<close> removes it and counts it.
\<close>

theorem add_chunk_reassigns_doc:
  fixes rt c d1 md1 d2 md2 s
  defines "cid \<equiv> fst (add_chunk rt c d1 md1 s)"
  defines "s2 \<equiv> snd (add_chunk rt c d2 md2 (snd (add_chunk rt c d1 md1 s)))"
  defines "stored \<equiv> \<lparr> chunk_content = c, chunk_doc_id = d2,
                        chunk_metadata = (case md2 of None \<Rightarrow> [] | Some m \<Rightarrow> m) \<rparr>"
  assumes "distinct (map fst (chunks s))" and "d1 \<noteq> d2"
  shows "map_of (chunks s2) cid = Some stored
       \<and> map_of (chunks (snd (delete_by_doc rt d1 s2))) cid = Some stored
       \<and> fst (delete_by_doc rt d1 s2)
           = length (filter (\<lambda>(k, ch). chunk_doc_id ch = d1) (AList.delete cid (chunks s2)))
       \<and> map_of (chunks (snd (delete_by_doc rt d2 s2))) cid = None
       \<and> fst (delete_by_doc rt d2 s2)
           = 1 + length (filter (\<lambda>(k, ch). chunk_doc_id ch = d2) (AList.delete cid (chunks s2)))"
proof -
  have dk: "distinct (map fst (chunks s2))"
    using assms(4) by (simp add: s2_def add_chunk_def Let_def distinct_update)
  have st: "map_of (chunks s2) cid = Some stored"
    by (simp add: s2_def cid_def stored_def add_chunk_def Let_def update_conv')
  have doc: "chunk_doc_id stored = d2" by (simp add: stored_def)
  have keep: "map_of (chunks (snd (delete_by_doc rt d1 s2))) cid = Some stored"
    using map_of_filter_value[OF dk, of "\<lambda>ch. chunk_doc_id ch \<noteq> d1" cid] st doc assms(5)
    by (simp add: chunks_delete_by_doc[OF dk])
  have gone: "map_of (chunks (snd (delete_by_doc rt d2 s2))) cid = None"
    using map_of_filter_value[OF dk, of "\<lambda>ch. chunk_doc_id ch \<noteq> d2" cid] st doc
    by (simp add: chunks_delete_by_doc[OF dk])
  have n1: "fst (delete_by_doc rt d1 s2)
           = length (filter (\<lambda>(k, ch). chunk_doc_id ch = d1) (AList.delete cid (chunks s2)))"
    using length_filter_delete[OF dk st, of "\<lambda>(k, ch). chunk_doc_id ch = d1"] doc assms(5)
    by (simp add: count_delete_by_doc)
  have n2: "fst (delete_by_doc rt d2 s2)
           = 1 + length (filter (\<lambda>(k, ch). chunk_doc_id ch = d2) (AList.delete cid (chunks s2)))"
    using length_filter_delete[OF dk st, of "\<lambda>(k, ch). chunk_doc_id ch = d2"] doc
    by (simp add: count_delete_by_doc)
  show ?thesis using st keep gone n1 n2 by simp
qed

theorem add_chunk_reassigns_doc_witness:
  "distinct (map fst (chunks RAGStore)) \<and> ''doc1'' \<noteq> ''doc2''
   \<and> map_of (chunks demo_store_twice) ''81d6a1501eaff685''
        = Some \<lparr> chunk_content = ''Content 1'', chunk_doc_id = ''doc2'', chunk_metadata = [] \<rparr>
   \<and> fst (delete_by_doc demo_runtime ''doc1'' demo_store_twice) = 0
   \<and> map_of (chunks (snd (delete_by_doc demo_runtime ''doc1'' demo_store_twice))) ''81d6a1501eaff685''
        = Some \<lparr> chunk_content = ''Content 1'', chunk_doc_id = ''doc2'', chunk_metadata = [] \<rparr>
   \<and> fst (delete_by_doc demo_runtime ''doc2'' demo_store_twice) = 1
   \<and> map_of (chunks (snd (delete_by_doc demo_runtime ''doc2'' demo_store_twice))) ''81d6a1501eaff685''
        = None"
proof -
  have dk: "distinct (map fst (chunks RAGStore))" by (simp add: RAGStore_def)
  have ne: "''doc1'' \<noteq> ''doc2''" by simp
  note inst = add_chunk_reassigns_doc[where rt = demo_runtime and c = "''Content 1''"
      and ?d1.0 = "''doc1''" and ?d2.0 = "''doc2''" and ?md1.0 = None and ?md2.0 = None
      and s = RAGStore, OF dk ne, unfolded demo_store_twice_fold]
  show ?thesis
    using inst dk by (simp add: demo_store_twice_eval)
qed

section \<open>Knowledge store: consistency of the index\<close>

lemma store_inv_iff:
  "store_inv s \<longleftrightarrow>
     distinct (map fst (chunks s)) \<and> distinct (map fst (index s)) \<and>
     (\<forall>w. distinct (postings (index s) w)) \<and>
     (\<forall>w cid. cid \<in> set (postings (index s) w) \<longleftrightarrow>
        (\<exists>ch. map_of (chunks s) cid = Some ch \<and> w \<in> set (py_split (py_lower (chunk_content ch)))))"
  (is "?L \<longleftrightarrow> ?R")
proof
  assume L: ?L
  then have dk: "distinct (map fst (chunks s))" and di: "distinct (map fst (index s))"
    and pd: "\<And>w ids. (w, ids) \<in> set (index s) \<Longrightarrow> distinct ids"
    and sound: "\<And>w ids cid. (w, ids) \<in> set (index s) \<Longrightarrow> cid \<in> set ids \<Longrightarrow>
        \<exists>ch. map_of (chunks s) cid = Some ch \<and> w \<in> set (py_split (py_lower (chunk_content ch)))"
    and complete: "\<And>cid ch w. (cid, ch) \<in> set (chunks s) \<Longrightarrow>
        w \<in> set (py_split (py_lower (chunk_content ch))) \<Longrightarrow> cid \<in> set (postings (index s) w)"
    by (auto simp: store_inv_def postings_distinct_def)
  have p: "postings (index s) w = ids" if "(w, ids) \<in> set (index s)" for w ids
    using that di by (simp add: postings_def)
  have q: "(w, postings (index s) w) \<in> set (index s)" if "postings (index s) w \<noteq> []" for w
    using that by (auto simp: postings_def split: option.splits dest: map_of_SomeD)
  have "distinct (postings (index s) w)" for w
    using q[of w] pd by (cases "postings (index s) w = []") auto
  moreover have "cid \<in> set (postings (index s) w) \<longleftrightarrow>
        (\<exists>ch. map_of (chunks s) cid = Some ch \<and> w \<in> set (py_split (py_lower (chunk_content ch))))"
    for w cid
  proof
    assume a: "cid \<in> set (postings (index s) w)"
    then have "postings (index s) w \<noteq> []" by auto
    then have "(w, postings (index s) w) \<in> set (index s)" by (rule q)
    then show "\<exists>ch. map_of (chunks s) cid = Some ch \<and> w \<in> set (py_split (py_lower (chunk_content ch)))"
      using sound a by blast
  next
    assume "\<exists>ch. map_of (chunks s) cid = Some ch \<and> w \<in> set (py_split (py_lower (chunk_content ch)))"
    then show "cid \<in> set (postings (index s) w)"
      using complete by (blast dest: map_of_SomeD)
  qed
  ultimately show ?R using dk di by blast
next
  assume R: ?R
  then have dk: "distinct (map fst (chunks s))" and di: "distinct (map fst (index s))"
    and pd: "\<And>w. distinct (postings (index s) w)"
    and iff: "\<And>w cid. cid \<in> set (postings (index s) w) \<longleftrightarrow>
        (\<exists>ch. map_of (chunks s) cid = Some ch \<and> w \<in> set (py_split (py_lower (chunk_content ch))))"
    by blast+
  have p: "postings (index s) w = ids" if "(w, ids) \<in> set (index s)" for w ids
    using that di by (simp add: postings_def)
  have "postings_distinct s"
    unfolding postings_distinct_def using p pd by fastforce
  moreover have "\<forall>(w, ids) \<in> set (index s). \<forall>cid \<in> set ids.
        \<exists>ch. map_of (chunks s) cid = Some ch \<and> w \<in> set (py_split (py_lower (chunk_content ch)))"
    using p iff by fastforce
  moreover have "\<forall>(cid, ch) \<in> set (chunks s). \<forall>w \<in> set (py_split (py_lower (chunk_content ch))).
        cid \<in> set (postings (index s) w)"
    using iff dk by fastforce
  ultimately show ?L
    using dk di by (simp add: store_inv_def)
qed

lemma store_inv_empty: "store_inv RAGStore"
  by (simp add: store_inv_def RAGStore_def postings_distinct_def)

lemma content_words_set:
  "runtime_ok rt \<Longrightarrow> set (content_words rt text) = set (py_split (py_lower text))"
  "runtime_ok rt \<Longrightarrow> distinct (content_words rt text)"
  by (simp_all add: runtime_ok_def content_words_def)

lemma map_of_unindex_word:
  "map_of (unindex_word cid w idx) w' =
     (if w' = w then map_option (remove1 cid) (map_of idx w) else map_of idx w')"
proof (cases "map_of idx w")
  case None
  then show ?thesis by (simp add: unindex_word_def)
next
  case (Some ids)
  show ?thesis
  proof (cases "cid \<in> set ids")
    case True
    then show ?thesis using Some by (simp add: unindex_word_def update_conv')
  next
    case False
    then have "remove1 cid ids = ids" by (simp add: remove1_idem)
    then show ?thesis using Some False by (simp add: unindex_word_def)
  qed
qed

lemma postings_unindex_word:
  "postings (unindex_word cid w idx) w' =
     (if w' = w then remove1 cid (postings idx w) else postings idx w')"
  by (simp add: postings_def map_of_unindex_word split: option.splits)

lemma postings_fold_unindex_word:
  "distinct ws \<Longrightarrow>
   postings (fold (unindex_word cid) ws idx) w' =
     (if w' \<in> set ws then remove1 cid (postings idx w') else postings idx w')"
  by (induction ws arbitrary: idx) (auto simp: postings_unindex_word)

lemma keys_unindex_word: "map fst (unindex_word cid w idx) = map fst idx"
  by (auto simp: unindex_word_def update_keys split: option.splits dest: map_of_SomeD
      intro: rev_image_eqI)

lemma keys_fold_unindex_word: "map fst (fold (unindex_word cid) ws idx) = map fst idx"
  by (induction ws arbitrary: idx) (simp_all add: keys_unindex_word)

lemma store_inv_delete_chunk:
  assumes rt: "runtime_ok rt" and inv: "store_inv s"
  shows "store_inv (delete_chunk rt cid s)"
proof (cases "map_of (chunks s) cid")
  case None
  then show ?thesis using inv by (simp add: delete_chunk_def)
next
  case (Some ch)
  let ?ws = "content_words rt (chunk_content ch)"
  let ?s' = "delete_chunk rt cid s"
  have c': "chunks ?s' = AList.delete cid (chunks s)"
    and i': "index ?s' = fold (unindex_word cid) ?ws (index s)"
    using Some by (simp_all add: delete_chunk_def)
  have old: "distinct (map fst (chunks s))" "distinct (map fst (index s))"
    "\<And>w. distinct (postings (index s) w)"
    "\<And>w c. c \<in> set (postings (index s) w) \<longleftrightarrow>
        (\<exists>ch. map_of (chunks s) c = Some ch \<and> w \<in> set (py_split (py_lower (chunk_content ch))))"
    using inv unfolding store_inv_iff by blast+
  have ws: "set ?ws = set (py_split (py_lower (chunk_content ch)))" "distinct ?ws"
    using content_words_set[OF rt] by blast+
  have p': "postings (index ?s') w =
      (if w \<in> set ?ws then remove1 cid (postings (index s) w) else postings (index s) w)" for w
    unfolding i' using postings_fold_unindex_word[OF ws(2)] by simp
  have out: "cid \<notin> set (postings (index s) w)" if "w \<notin> set ?ws" for w
    using that old(4)[of cid w] Some ws(1) by auto
  have "c \<in> set (postings (index ?s') w) \<longleftrightarrow>
        (\<exists>ch. map_of (chunks ?s') c = Some ch \<and> w \<in> set (py_split (py_lower (chunk_content ch))))"
    for w c
  proof (cases "c = cid")
    case True
    then show ?thesis
      using out[of w] old(3)[of w] by (auto simp: p' c' delete_conv')
  next
    case False
    then show ?thesis
      using old(4)[of c w] old(3)[of w] by (auto simp: p' c' delete_conv')
  qed
  moreover have "distinct (postings (index ?s') w)" for w
    using old(3)[of w] by (simp add: p')
  moreover have "distinct (map fst (chunks ?s'))"
    using old(1) by (simp add: c' distinct_delete)
  moreover have "distinct (map fst (index ?s'))"
    using old(2) by (simp add: i' keys_fold_unindex_word)
  ultimately show ?thesis
    unfolding store_inv_iff by blast
qed

lemma store_inv_fold_delete_chunk:
  "runtime_ok rt \<Longrightarrow> store_inv s \<Longrightarrow> store_inv (fold (delete_chunk rt) ids s)"
  by (induction ids arbitrary: s) (simp_all add: store_inv_delete_chunk)

lemma store_inv_delete_by_doc:
  "runtime_ok rt \<Longrightarrow> store_inv s \<Longrightarrow> store_inv (snd (delete_by_doc rt d s))"
  by (simp add: delete_by_doc_def store_inv_fold_delete_chunk)

lemma store_inv_add_chunk:
  assumes rt: "runtime_ok rt" and inv: "store_inv s"
    and same: "\<And>ch. map_of (chunks s) (take 16 (md5_hexdigest rt c)) = Some ch \<Longrightarrow> chunk_content ch = c"
  shows "store_inv (snd (add_chunk rt c d md s))"
proof -
  let ?cid = "take 16 (md5_hexdigest rt c)"
  let ?ws = "content_words rt c"
  let ?new = "\<lparr> chunk_content = c, chunk_doc_id = d,
                 chunk_metadata = (case md of None \<Rightarrow> [] | Some m \<Rightarrow> m) \<rparr>"
  let ?s' = "snd (add_chunk rt c d md s)"
  have c': "chunks ?s' = AList.update ?cid ?new (chunks s)"
    and i': "index ?s' = fold (index_word ?cid) ?ws (index s)"
    by (simp_all add: add_chunk_def Let_def)
  have old: "distinct (map fst (chunks s))" "distinct (map fst (index s))"
    "\<And>w. distinct (postings (index s) w)"
    "\<And>w k. k \<in> set (postings (index s) w) \<longleftrightarrow>
        (\<exists>ch. map_of (chunks s) k = Some ch \<and> w \<in> set (py_split (py_lower (chunk_content ch))))"
    using inv unfolding store_inv_iff by blast+
  have ws: "set ?ws = set (py_split (py_lower c))"
    using content_words_set[OF rt] by blast
  have p': "postings (index ?s') w =
      (if w \<in> set ?ws \<and> ?cid \<notin> set (postings (index s) w) then postings (index s) w @ [?cid]
       else postings (index s) w)" for w
    unfolding i' by (rule postings_fold_index_word)
  have known: "w \<in> set ?ws" if "?cid \<in> set (postings (index s) w)" for w
    using that old(4)[of ?cid w] same ws by auto
  have "k \<in> set (postings (index ?s') w) \<longleftrightarrow>
        (\<exists>ch. map_of (chunks ?s') k = Some ch \<and> w \<in> set (py_split (py_lower (chunk_content ch))))"
    for w k
  proof (cases "k = ?cid")
    case True
    then show ?thesis
      using known[of w] ws by (auto simp: p' c' update_conv')
  next
    case False
    then show ?thesis
      using old(4)[of k w] by (auto simp: p' c' update_conv')
  qed
  moreover have "distinct (postings (index ?s') w)" for w
    using old(3)[of w] by (simp add: p')
  moreover have "distinct (map fst (chunks ?s'))"
    using old(1) by (simp add: c' distinct_update)
  moreover have "distinct (map fst (index ?s'))"
    using old(2) by (simp add: i' distinct_keys_fold_index_word)
  ultimately show ?thesis
    unfolding store_inv_iff by blast
qed

section \<open>Knowledge store: search\<close>

lemma get0_bump: "get0 (bump c cs) k = (if k = c then get0 cs c + 1 else get0 cs k)"
  by (simp add: bump_def get0_def update_conv')

lemma keys_bump: "fst ` set (bump c cs) = insert c (fst ` set cs)"
  by (simp add: bump_def dom_update)

lemma distinct_bump: "distinct (map fst cs) \<Longrightarrow> distinct (map fst (bump c cs))"
  by (simp add: bump_def distinct_update)

lemma fold_bump:
  "get0 (fold bump ids cs) k = get0 cs k + count_list ids k"
  "fst ` set (fold bump ids cs) = fst ` set cs \<union> set ids"
  "distinct (map fst cs) \<Longrightarrow> distinct (map fst (fold bump ids cs))"
  by (induction ids arbitrary: cs) (auto simp: get0_bump keys_bump distinct_bump)

lemma score_word_fold: "score_word idx w cs = fold bump (postings idx w) cs"
  by (simp add: score_word_def postings_def split: option.splits)

lemma fold_score_word:
  "get0 (fold (score_word idx) ws cs) k = get0 cs k + (\<Sum>w\<leftarrow>ws. count_list (postings idx w) k)"
  "fst ` set (fold (score_word idx) ws cs) = fst ` set cs \<union> (\<Union>w \<in> set ws. set (postings idx w))"
  "distinct (map fst cs) \<Longrightarrow> distinct (map fst (fold (score_word idx) ws cs))"
  by (induction ws arbitrary: cs) (auto simp: score_word_fold fold_bump)

lemma count_list_member: "distinct xs \<Longrightarrow> count_list xs x = (if x \<in> set xs then 1 else 0)"
  by (induction xs) auto

lemma sum_indicator: "(\<Sum>w\<leftarrow>ws. if P w then 1 else 0) = length (filter P ws)"
  by (induction ws) auto

lemma card_inter_filter: "distinct ws \<Longrightarrow> card (set ws \<inter> A) = length (filter (\<lambda>w. w \<in> A) ws)"
proof -
  assume d: "distinct ws"
  have "set ws \<inter> A = set (filter (\<lambda>w. w \<in> A) ws)" by auto
  moreover have "card (set (filter (\<lambda>w. w \<in> A) ws)) = length (filter (\<lambda>w. w \<in> A) ws)"
    using d by (intro distinct_card) simp
  ultimately show ?thesis by (simp only:)
qed

lemma sorted_desc_props:
  "set (sorted_desc key xs) = set xs"
  "length (sorted_desc key xs) = length xs"
  "sorted_wrt (\<ge>) (map key (sorted_desc key xs))"
proof -
  show "set (sorted_desc key xs) = set xs" "length (sorted_desc key xs) = length xs"
    by (simp_all add: sorted_desc_def)
  have "sorted (map (\<lambda>x. - key x) (sorted_desc key xs))"
    by (simp add: sorted_desc_def)
  then show "sorted_wrt (\<ge>) (map key (sorted_desc key xs))"
    by (simp add: sorted_wrt_map)
qed

lemma slice_prefix: "py_slice None (Some k) xs = take (slice_index (length xs) k) xs"
  by (simp add: py_slice_def Let_def)

lemma slice_prefix_length: "0 \<le> k \<Longrightarrow> int (length (py_slice None (Some k) xs)) \<le> k"
  by (simp add: slice_prefix slice_index_def)

lemma sorted_wrt_take_map:
  "sorted_wrt R (map f xs) \<Longrightarrow> sorted_wrt R (map f (take n xs))"
  by (simp add: take_map[symmetric])

lemma hits_total:
  "\<forall>(k, sc) \<in> set pairs. \<exists>ch. map_of cs k = Some ch \<Longrightarrow>
   \<exists>hs. hits cs pairs = Inr hs \<and> map score hs = map snd pairs \<and> map chunk_id hs = map fst pairs
        \<and> (\<forall>h \<in> set hs. (chunk_id h, score h) \<in> set pairs \<and>
              map_of cs (chunk_id h) = Some \<lparr> chunk_content = chunk_content h,
                 chunk_doc_id = chunk_doc_id h, chunk_metadata = chunk_metadata h \<rparr>)"
proof (induction pairs)
  case Nil
  then show ?case by simp
next
  case (Cons p pairs)
  obtain k sc where p: "p = (k, sc)" by (cases p)
  obtain ch where ch: "map_of cs k = Some ch" using Cons.prems p by auto
  obtain hs where hs: "hits cs pairs = Inr hs" "map score hs = map snd pairs"
      "map chunk_id hs = map fst pairs"
      "\<forall>h \<in> set hs. (chunk_id h, score h) \<in> set pairs \<and>
              map_of cs (chunk_id h) = Some \<lparr> chunk_content = chunk_content h,
                 chunk_doc_id = chunk_doc_id h, chunk_metadata = chunk_metadata h \<rparr>"
    using Cons by auto
  show ?case
    using p ch hs by simp
qed

lemma normalize_entry:
  "(c, sc) \<in> set (normalize_scores m cs) \<Longrightarrow>
   \<exists>n. (c, n) \<in> set cs \<and> sc = (if m = 0 then of_nat n else of_nat n / of_nat m)"
  by (auto simp: normalize_scores_def)

lemma slice_prefix_subset: "set (py_slice None (Some k) xs) \<subseteq> set xs"
  by (simp add: slice_prefix set_take_subset)

lemma search_result:
  assumes rt: "runtime_ok rt" and inv: "store_inv s"
  shows "\<exists>hs. search rt q top_k s = Inr hs
           \<and> (0 \<le> top_k \<longrightarrow> int (length hs) \<le> top_k)
           \<and> sorted_wrt (\<ge>) (map score hs)
           \<and> (\<forall>h \<in> set hs.
                 map_of (chunks s) (chunk_id h) = Some \<lparr> chunk_content = chunk_content h,
                     chunk_doc_id = chunk_doc_id h, chunk_metadata = chunk_metadata h \<rparr>
               \<and> 0 < score h
               \<and> score h = of_nat (card (set (py_split (py_lower q))
                                          \<inter> set (py_split (py_lower (chunk_content h)))))
                             / of_nat (card (set (py_split (py_lower q)))))"
proof -
  let ?qw = "content_words rt q"
  let ?scores = "fold (score_word (index s)) ?qw []"
  let ?norm = "normalize_scores (length ?qw) ?scores"
  let ?top = "py_slice None (Some top_k) (sorted_desc snd ?norm)"
  have old: "\<And>w. distinct (postings (index s) w)"
    "\<And>w c. c \<in> set (postings (index s) w) \<longleftrightarrow>
        (\<exists>ch. map_of (chunks s) c = Some ch \<and> w \<in> set (py_split (py_lower (chunk_content ch))))"
    using inv unfolding store_inv_iff by blast+
  have qw: "set ?qw = set (py_split (py_lower q))" "distinct ?qw"
    using content_words_set[OF rt] by blast+
  have len_qw: "length ?qw = card (set (py_split (py_lower q)))"
    using qw by (metis distinct_card)
  have dk: "distinct (map fst ?scores)"
    by (simp add: fold_score_word(3))
  have keys: "fst ` set ?scores = (\<Union>w \<in> set ?qw. set (postings (index s) w))"
    by (simp add: fold_score_word(2))
  have val: "n = (\<Sum>w\<leftarrow>?qw. count_list (postings (index s) w) c)" if "(c, n) \<in> set ?scores" for c n
  proof -
    have "map_of ?scores c = Some n" using that dk by simp
    then have "get0 ?scores c = n" by (simp add: get0_def)
    then show ?thesis using fold_score_word(1)[of "index s" ?qw "[]" c] by (simp add: get0_def)
  qed
  have entry: "\<exists>ch. map_of (chunks s) c = Some ch
        \<and> n = card (set (py_split (py_lower q)) \<inter> set (py_split (py_lower (chunk_content ch))))
        \<and> 0 < n \<and> ?qw \<noteq> []"
    if "(c, n) \<in> set ?scores" for c n
  proof -
    have "c \<in> fst ` set ?scores" using that by force
    then obtain w where w: "w \<in> set ?qw" "c \<in> set (postings (index s) w)"
      unfolding keys by blast
    then obtain ch where ch: "map_of (chunks s) c = Some ch"
        "w \<in> set (py_split (py_lower (chunk_content ch)))"
      using old(2) by blast
    let ?cw = "set (py_split (py_lower (chunk_content ch)))"
    have "count_list (postings (index s) w') c = (if w' \<in> ?cw then 1 else 0)" for w'
      using old(2)[of c w'] ch(1) by (simp add: count_list_member[OF old(1)])
    then have "n = length (filter (\<lambda>w. w \<in> ?cw) ?qw)"
      using val[OF that] by (simp add: sum_indicator)
    then have n: "n = card (set (py_split (py_lower q)) \<inter> ?cw)"
      using card_inter_filter[OF qw(2), of ?cw] qw(1) by simp
    have "w \<in> set (py_split (py_lower q)) \<inter> ?cw" using w(1) ch(2) qw(1) by simp
    then have "0 < n" unfolding n by (metis List.finite_set card_gt_0_iff empty_iff finite_Int)
    then show ?thesis using ch(1) n w(1) by auto
  qed
  have norm: "\<exists>ch. map_of (chunks s) c = Some ch \<and> 0 < sc
        \<and> sc = of_nat (card (set (py_split (py_lower q)) \<inter> set (py_split (py_lower (chunk_content ch)))))
               / of_nat (card (set (py_split (py_lower q))))"
    if in_norm: "(c, sc) \<in> set ?norm" for c sc
  proof -
    obtain n where n: "(c, n) \<in> set ?scores"
        "sc = (if length ?qw = 0 then of_nat n else of_nat n / of_nat (length ?qw))"
      using normalize_entry[OF in_norm] by blast
    obtain ch where ch: "map_of (chunks s) c = Some ch"
        "n = card (set (py_split (py_lower q)) \<inter> set (py_split (py_lower (chunk_content ch))))"
        "0 < n" "?qw \<noteq> []"
      using entry[OF n(1)] by blast
    have sc: "sc = of_nat n / of_nat (length ?qw)" using n(2) ch(4) by simp
    have "0 < sc" unfolding sc using ch(3,4) by simp
    then show ?thesis using ch(1,2) sc len_qw by auto
  qed
  have top_sub: "set ?top \<subseteq> set ?norm"
    using slice_prefix_subset[of top_k "sorted_desc snd ?norm"]
    by (simp add: sorted_desc_props(1))
  have top_sorted: "sorted_wrt (\<ge>) (map snd ?top)"
    unfolding slice_prefix by (intro sorted_wrt_take_map sorted_desc_props(3))
  have "\<forall>(k, sc) \<in> set ?top. \<exists>ch. map_of (chunks s) k = Some ch"
    using top_sub norm by blast
  then obtain hs where hs: "hits (chunks s) ?top = Inr hs" "map score hs = map snd ?top"
      "\<forall>h \<in> set hs. (chunk_id h, score h) \<in> set ?top \<and>
              map_of (chunks s) (chunk_id h) = Some \<lparr> chunk_content = chunk_content h,
                 chunk_doc_id = chunk_doc_id h, chunk_metadata = chunk_metadata h \<rparr>"
    using hits_total[of ?top "chunks s"] by blast
  have res: "search rt q top_k s = Inr hs"
    using hs(1) by (simp add: search_def Let_def)
  have len: "0 \<le> top_k \<longrightarrow> int (length hs) \<le> top_k"
    using slice_prefix_length[of top_k "sorted_desc snd ?norm"] hs(2)
    by (metis length_map)
  have srt: "sorted_wrt (\<ge>) (map score hs)"
    using top_sorted hs(2) by simp
  have each: "map_of (chunks s) (chunk_id h) = Some \<lparr> chunk_content = chunk_content h,
                     chunk_doc_id = chunk_doc_id h, chunk_metadata = chunk_metadata h \<rparr>
               \<and> 0 < score h
               \<and> score h = of_nat (card (set (py_split (py_lower q))
                                          \<inter> set (py_split (py_lower (chunk_content h)))))
                             / of_nat (card (set (py_split (py_lower q))))"
    if "h \<in> set hs" for h
  proof -
    have a: "(chunk_id h, score h) \<in> set ?norm"
      and b: "map_of (chunks s) (chunk_id h) = Some \<lparr> chunk_content = chunk_content h,
                 chunk_doc_id = chunk_doc_id h, chunk_metadata = chunk_metadata h \<rparr>"
      using hs(3) that top_sub by blast+
    show ?thesis using norm[OF a] b by auto
  qed
  show ?thesis
    using res len srt each by blast
qed

lemma index_entry_stored:
  assumes "store_inv s" "(w, ids) \<in> set (index s)" "cid \<in> set ids"
  shows "\<exists>ch. map_of (chunks s) cid = Some ch"
proof -
  have di: "distinct (map fst (index s))"
    and iff: "\<And>w cid. cid \<in> set (postings (index s) w) \<longleftrightarrow>
        (\<exists>ch. map_of (chunks s) cid = Some ch \<and> w \<in> set (py_split (py_lower (chunk_content ch))))"
    using assms(1) unfolding store_inv_iff by blast+
  have "postings (index s) w = ids"
    using assms(2) di by (simp add: postings_def)
  then have "cid \<in> set (postings (index s) w)"
    using assms(3) by simp
  then show ?thesis
    using iff by blast
qed

lemma demo_store_docs_inv: "store_inv demo_store_docs"
  unfolding demo_store_docs_def
  apply (intro store_inv_add_chunk demo_runtime_ok store_inv_empty) 
    apply (simp_all add: add_chunk_def Let_def RAGStore_def demo_runtime_def demo_md5_def update_conv')
  done

lemma demo_delete_eval:
  "delete_by_doc demo_runtime ''doc1'' demo_store_docs =
     (2, \<lparr> chunks = [(''e514979236a3b13c'',
                       \<lparr> chunk_content = ''Content 3'', chunk_doc_id = ''doc2'', chunk_metadata = [] \<rparr>)],
           index = [(''content'', [''e514979236a3b13c'']), (''1'', []), (''2'', []),
                    (''3'', [''e514979236a3b13c''])] \<rparr>)"
  by code_simp

lemma demo_search_after_delete:
  "search demo_runtime ''content 3'' 5 (snd (delete_by_doc demo_runtime ''doc1'' demo_store_docs)) =
     Inr [\<lparr> chunk_content = ''Content 3'', chunk_doc_id = ''doc2'', chunk_metadata = [],
            chunk_id = ''e514979236a3b13c'', score = 1 \<rparr>]"
  by code_simp

lemma demo_search_eval:
  "search demo_runtime ''content 3'' 2 demo_store_docs =
     Inr [\<lparr> chunk_content = ''Content 3'', chunk_doc_id = ''doc2'', chunk_metadata = [],
            chunk_id = ''e514979236a3b13c'', score = 1 \<rparr>,
          \<lparr> chunk_content = ''Content 1'', chunk_doc_id = ''doc1'', chunk_metadata = [],
            chunk_id = ''81d6a1501eaff685'', score = 1 / 2 \<rparr>]"
  by code_simp

text \<open>
  C3. In a consistent store, \<open>delete_by_doc\<close> removes exactly the chunks whose stored
  document is the argument and returns how many they were. Afterwards every identifier
  left in a postings list belongs to a stored chunk, none of them is a removed one, and a
  search, for whatever query and \<open>top_k\<close>, returns without error and has no hit from
  that document.
\<close>

theorem delete_by_doc_no_dangling:
  assumes "runtime_ok rt" and "store_inv s"
  shows "chunks (snd (delete_by_doc rt d s)) = filter (\<lambda>(cid, ch). chunk_doc_id ch \<noteq> d) (chunks s)
       \<and> fst (delete_by_doc rt d s) = length (filter (\<lambda>(cid, ch). chunk_doc_id ch = d) (chunks s))
       \<and> (\<forall>(w, ids) \<in> set (index (snd (delete_by_doc rt d s))). \<forall>cid \<in> set ids.
             cid \<in> fst ` set (chunks (snd (delete_by_doc rt d s))) \<and> cid \<notin> set (to_delete d s))
       \<and> (\<forall>q top_k. \<exists>hs. search rt q top_k (snd (delete_by_doc rt d s)) = Inr hs
             \<and> (\<forall>h \<in> set hs. chunk_doc_id h \<noteq> d))"
proof -
  let ?s' = "snd (delete_by_doc rt d s)"
  have dk: "distinct (map fst (chunks s))"
    using assms(2) by (simp add: store_inv_def)
  have c': "chunks ?s' = filter (\<lambda>(cid, ch). chunk_doc_id ch \<noteq> d) (chunks s)"
    using dk by (rule chunks_delete_by_doc)
  have inv': "store_inv ?s'"
    using assms by (rule store_inv_delete_by_doc)
  have stored: "chunk_doc_id ch \<noteq> d \<and> cid \<notin> set (to_delete d s)"
    if "map_of (chunks ?s') cid = Some ch" for cid ch
  proof -
    have "(cid, ch) \<in> set (chunks ?s')" using that by (rule map_of_SomeD)
    then have m: "(cid, ch) \<in> set (chunks s)" "chunk_doc_id ch \<noteq> d"
      by (auto simp: c')
    then show ?thesis using to_delete_iff[OF dk m(1), of d] by simp
  qed
  have idx: "\<forall>(w, ids) \<in> set (index ?s'). \<forall>cid \<in> set ids.
             cid \<in> fst ` set (chunks ?s') \<and> cid \<notin> set (to_delete d s)"
  proof -
    have "cid \<in> fst ` set (chunks ?s') \<and> cid \<notin> set (to_delete d s)"
      if e: "(w, ids) \<in> set (index ?s')" "cid \<in> set ids" for w ids cid
    proof -
      obtain ch where ch: "map_of (chunks ?s') cid = Some ch"
        using index_entry_stored[OF inv' e] by blast
      then have "(cid, ch) \<in> set (chunks ?s')"
        by (rule map_of_SomeD)
      then have "cid \<in> fst ` set (chunks ?s')"
        by force
      then show ?thesis using stored[OF ch] by simp
    qed
    then show ?thesis by blast
  qed
  have srch: "\<exists>hs. search rt q top_k ?s' = Inr hs \<and> (\<forall>h \<in> set hs. chunk_doc_id h \<noteq> d)" for q top_k
  proof -
    obtain hs where hs: "search rt q top_k ?s' = Inr hs"
      "\<forall>h \<in> set hs. map_of (chunks ?s') (chunk_id h) = Some \<lparr> chunk_content = chunk_content h,
                     chunk_doc_id = chunk_doc_id h, chunk_metadata = chunk_metadata h \<rparr>"
      using search_result[OF assms(1) inv', of q top_k] by blast
    have "chunk_doc_id h \<noteq> d" if "h \<in> set hs" for h
    proof -
      have "map_of (chunks ?s') (chunk_id h) = Some \<lparr> chunk_content = chunk_content h,
                     chunk_doc_id = chunk_doc_id h, chunk_metadata = chunk_metadata h \<rparr>"
        using hs(2) that by blast
      then show ?thesis using stored by fastforce
    qed
    then show ?thesis using hs(1) by blast
  qed
  show ?thesis
    using c' idx srch by (simp add: count_delete_by_doc)
qed

theorem delete_by_doc_no_dangling_witness:
  "runtime_ok demo_runtime \<and> store_inv demo_store_docs
   \<and> fst (delete_by_doc demo_runtime ''doc1'' demo_store_docs) = 2
   \<and> chunk_count (snd (delete_by_doc demo_runtime ''doc1'' demo_store_docs)) = 1
   \<and> index (snd (delete_by_doc demo_runtime ''doc1'' demo_store_docs))
       = [(''content'', [''e514979236a3b13c'']), (''1'', []), (''2'', []),
          (''3'', [''e514979236a3b13c''])]
   \<and> search demo_runtime ''content 3'' 5 (snd (delete_by_doc demo_runtime ''doc1'' demo_store_docs))
       = Inr [\<lparr> chunk_content = ''Content 3'', chunk_doc_id = ''doc2'', chunk_metadata = [],
                chunk_id = ''e514979236a3b13c'', score = 1 \<rparr>]"
proof -
  note inst = delete_by_doc_no_dangling[OF demo_runtime_ok demo_store_docs_inv, of "''doc1''"]
  have n: "fst (delete_by_doc demo_runtime ''doc1'' demo_store_docs) = 2"
    by (simp add: demo_delete_eval)
  have c: "chunk_count (snd (delete_by_doc demo_runtime ''doc1'' demo_store_docs)) = 1"
    by (simp add: demo_delete_eval chunk_count_def)
  have removed: "fst (delete_by_doc demo_runtime ''doc1'' demo_store_docs)
          = length (filter (\<lambda>(cid, ch). chunk_doc_id ch = ''doc1'') (chunks demo_store_docs))"
    using inst by blast
  have i: "index (snd (delete_by_doc demo_runtime ''doc1'' demo_store_docs))
       = [(''content'', [''e514979236a3b13c'']), (''1'', []), (''2'', []),
          (''3'', [''e514979236a3b13c''])]"
    by (simp add: demo_delete_eval)
  show ?thesis
    using removed n c i demo_runtime_ok demo_store_docs_inv demo_search_after_delete
    by (intro conjI)
qed

text \<open>
  C4. In a consistent store, a search with \<open>top_k \<ge> 0\<close> returns without error at
  most \<open>top_k\<close> hits in non-increasing order of score. Each hit is a stored chunk; its
  score is positive and equals the number of distinct lower-cased query words that are
  words of the lower-cased content, divided by the number of distinct lower-cased query
  words.
\<close>

theorem search_scores_ranked:
  assumes "runtime_ok rt" and "store_inv s" and "0 \<le> top_k"
  shows "\<exists>hs. search rt q top_k s = Inr hs
           \<and> int (length hs) \<le> top_k
           \<and> sorted_wrt (\<ge>) (map score hs)
           \<and> (\<forall>h \<in> set hs.
                 map_of (chunks s) (chunk_id h) = Some \<lparr> chunk_content = chunk_content h,
                     chunk_doc_id = chunk_doc_id h, chunk_metadata = chunk_metadata h \<rparr>
               \<and> 0 < score h
               \<and> score h = of_nat (card (set (py_split (py_lower q))
                                          \<inter> set (py_split (py_lower (chunk_content h)))))
                             / of_nat (card (set (py_split (py_lower q)))))"
proof -
  obtain hs where hs: "search rt q top_k s = Inr hs"
      "0 \<le> top_k \<longrightarrow> int (length hs) \<le> top_k"
      "sorted_wrt (\<ge>) (map score hs)"
      "\<forall>h \<in> set hs.
                 map_of (chunks s) (chunk_id h) = Some \<lparr> chunk_content = chunk_content h,
                     chunk_doc_id = chunk_doc_id h, chunk_metadata = chunk_metadata h \<rparr>
               \<and> 0 < score h
               \<and> score h = of_nat (card (set (py_split (py_lower q))
                                          \<inter> set (py_split (py_lower (chunk_content h)))))
                             / of_nat (card (set (py_split (py_lower q))))"
    using search_result[OF assms(1,2), of q top_k] by blast
  have "int (length hs) \<le> top_k" using hs(2) assms(3) by simp
  then show ?thesis using hs(1,3,4) by (intro exI[of _ hs] conjI)
qed

theorem search_scores_ranked_witness:
  "runtime_ok demo_runtime \<and> store_inv demo_store_docs \<and> (0::int) \<le> 2
   \<and> (\<exists>hs. search demo_runtime ''content 3'' 2 demo_store_docs = Inr hs
          \<and> map chunk_id hs = [''e514979236a3b13c'', ''81d6a1501eaff685'']
          \<and> map score hs = [1, 1 / 2]
          \<and> sorted_wrt (\<ge>) (map score hs))"
proof -
  obtain hs where hs: "search demo_runtime ''content 3'' 2 demo_store_docs = Inr hs"
      "sorted_wrt (\<ge>) (map score hs)"
    using search_scores_ranked[OF demo_runtime_ok demo_store_docs_inv, of 2 "''content 3''"]
    by auto
  have "map chunk_id hs = [''e514979236a3b13c'', ''81d6a1501eaff685''] \<and> map score hs = [1, 1 / 2]"
    using hs(1) by (auto simp: demo_search_eval)
  then show ?thesis
    using hs demo_runtime_ok demo_store_docs_inv by auto
qed

section \<open>Query composition\<close>

lemma sorted_desc_hd:
  assumes "x \<in> set xs"
  shows "sorted_desc key xs \<noteq> [] \<and> key x \<le> key (hd (sorted_desc key xs))"
proof -
  let ?ys = "sorted_desc key xs"
  have x: "x \<in> set ?ys" using assms by (simp add: sorted_desc_props(1))
  then obtain y ys where ys: "?ys = y # ys" by (cases ?ys) auto
  have "sorted_wrt (\<ge>) (map key (y # ys))"
    using sorted_desc_props(3)[of key xs] ys by simp
  then have "key x \<le> key y" using x ys by auto
  then show ?thesis using ys by simp
qed

lemma slice_prefix_hd:
  assumes "1 \<le> k" "xs \<noteq> []"
  shows "hd xs \<in> set (py_slice None (Some k) xs)"
proof -
  obtain y ys where xs: "xs = y # ys" using assms(2) by (cases xs) auto
  have "0 < slice_index (length xs) k"
    using assms xs by (simp add: slice_index_def)
  then obtain m where "slice_index (length xs) k = Suc m" by (cases "slice_index (length xs) k") auto
  then show ?thesis by (simp add: slice_prefix xs)
qed

lemma retrieve_relevant_nonempty:
  assumes "1 \<le> top_k" "c \<in> set (engine_chunks eng)"
    "0 < chunk_score rt (content_words rt question) c"
  shows "retrieve_relevant rt eng question top_k \<noteq> []"
proof -
  let ?scored = "map (\<lambda>chunk. (chunk_score rt (content_words rt question) chunk, chunk))
                   (engine_chunks eng)"
  let ?sorted = "sorted_desc fst ?scored"
  have "(chunk_score rt (content_words rt question) c, c) \<in> set ?scored"
    using assms(2) by auto
  then have ne: "?sorted \<noteq> []"
    and top: "chunk_score rt (content_words rt question) c \<le> fst (hd ?sorted)"
    using sorted_desc_hd[of "(chunk_score rt (content_words rt question) c, c)" ?scored fst]
    by auto
  have pos: "0 < fst (hd ?sorted)" using top assms(3) by linarith
  have "hd ?sorted \<in> set (py_slice None (Some top_k) ?sorted)"
    using slice_prefix_hd[OF assms(1) ne] .
  then have "hd ?sorted \<in> set (filter (\<lambda>(sc, chunk). sc > 0) (py_slice None (Some top_k) ?sorted))"
    using pos by (auto simp: case_prod_beta)
  then have "filter (\<lambda>(sc, chunk). sc > 0) (py_slice None (Some top_k) ?sorted) \<noteq> []"
    by (metis empty_iff list.set(1))
  moreover have "engine_chunks eng \<noteq> []" using assms(2) by auto
  ultimately show ?thesis
    by (simp add: retrieve_relevant_def Let_def)
qed

lemma demo_relevant:
  "retrieve_relevant demo_runtime demo_engine ''report'' 3 = engine_chunks demo_engine"
  "retrieve_relevant demo_runtime demo_engine ''report'' 0 = []"
  "0 < chunk_score demo_runtime (content_words demo_runtime ''report'') (hd (engine_chunks demo_engine))"
  by code_simp+

lemma demo_sources:
  "map source (engine_chunks demo_engine) = [''a.txt'', ''b.txt'', ''a.txt'']"
  by (simp add: demo_engine_def)

lemma demo_query_sources:
  "sources (query demo_runtime demo_engine ''report'' 3) = [''b.txt'', ''a.txt'']"
proof -
  have "sources (query demo_runtime demo_engine ''report'' 3)
          = set_order demo_runtime (map source (engine_chunks demo_engine))"
    unfolding query_def Let_def demo_relevant(1) by (simp add: demo_engine_def)
  then show ?thesis
    unfolding demo_sources by (simp add: demo_runtime_def)
qed

text \<open>
  C8 (as the code has it). With \<open>top_k \<ge> 1\<close> and a chunk that scores above zero for
  the question, \<open>query\<close> retrieves at least one chunk, builds the grounding context
  from the retrieved chunks as \<open>[Source: source]\<close>, a newline and the content, with a
  blank line between chunks, answers with the response of the model to the prompt around
  that context, and returns every source of a retrieved chunk exactly once. The order of
  the sources is the order in which the runtime iterates a set.
\<close>

theorem query_grounding:
  fixes rt eng question top_k
  defines "relevant \<equiv> retrieve_relevant rt eng question top_k"
  assumes "runtime_ok rt" and "1 \<le> top_k"
    and "\<exists>c \<in> set (engine_chunks eng). 0 < chunk_score rt (content_words rt question) c"
  shows "relevant \<noteq> []
       \<and> answer (query rt eng question top_k)
           = (case map_of (llm_generate eng (query_prompt (grounding_context relevant) question))
                     ''response'' of None \<Rightarrow> [] | Some r \<Rightarrow> r)
       \<and> grounding_context relevant
           = py_join [CHR 0x0A, CHR 0x0A]
               (map (\<lambda>c. ''[Source: '' @ source c @ '']'' @ [CHR 0x0A] @ ec_content c) relevant)
       \<and> set (sources (query rt eng question top_k)) = set (map source relevant)
       \<and> distinct (sources (query rt eng question top_k))"
proof -
  have ne: "relevant \<noteq> []"
    unfolding relevant_def using retrieve_relevant_nonempty assms(3,4) by blast
  have fmt: "format_chunk = (\<lambda>c. ''[Source: '' @ source c @ '']'' @ [CHR 0x0A] @ ec_content c)"
    by (rule ext) (simp add: format_chunk_def)
  have q: "query rt eng question top_k =
      \<lparr> answer = (case map_of (llm_generate eng (query_prompt (grounding_context relevant) question))
                     ''response'' of None \<Rightarrow> [] | Some r \<Rightarrow> r),
        sources = set_order rt (map source relevant) \<rparr>"
    using ne by (simp add: query_def Let_def relevant_def)
  have s: "set (set_order rt (map source relevant)) = set (map source relevant)"
      "distinct (set_order rt (map source relevant))"
    using assms(2) by (simp_all add: runtime_ok_def)
  show ?thesis
    using ne s by (simp add: q grounding_context_def fmt)
qed

theorem query_grounding_witness:
  "runtime_ok demo_runtime \<and> (1::int) \<le> 3
   \<and> (\<exists>c \<in> set (engine_chunks demo_engine).
         0 < chunk_score demo_runtime (content_words demo_runtime ''report'') c)
   \<and> retrieve_relevant demo_runtime demo_engine ''report'' 3 \<noteq> []
   \<and> set (sources (query demo_runtime demo_engine ''report'' 3)) = {''a.txt'', ''b.txt''}
   \<and> distinct (sources (query demo_runtime demo_engine ''report'' 3))"
proof -
  have hit: "\<exists>c \<in> set (engine_chunks demo_engine).
         0 < chunk_score demo_runtime (content_words demo_runtime ''report'') c"
    using demo_relevant(3) by (intro bexI[of _ "hd (engine_chunks demo_engine)"])
      (simp_all add: demo_engine_def)
  have k: "(1::int) \<le> 3" by simp
  note inst = query_grounding[OF demo_runtime_ok k hit]
  have ne: "retrieve_relevant demo_runtime demo_engine ''report'' 3 \<noteq> []"
    and d: "distinct (sources (query demo_runtime demo_engine ''report'' 3))"
    using inst by blast+
  have st: "set (sources (query demo_runtime demo_engine ''report'' 3)) = {''a.txt'', ''b.txt''}"
    unfolding demo_query_sources by auto
  show ?thesis
    using demo_runtime_ok k hit ne st d by (intro conjI)
qed

text \<open>
  C8 as stated fails. With retrieved sources \<open>a.txt, b.txt, a.txt\<close> and a runtime that
  iterates the set as \<open>b.txt, a.txt\<close>, the sources do not come in the order of first
  encounter; and with \<open>top_k = 0\<close> nothing is retrieved although a chunk scores above
  zero.
\<close>

theorem query_sources_order_counterexample:
  "runtime_ok demo_runtime
   \<and> 0 < chunk_score demo_runtime (content_words demo_runtime ''report'') (hd (engine_chunks demo_engine))
   \<and> sources (query demo_runtime demo_engine ''report'' 3)
       \<noteq> first_seen (map source (retrieve_relevant demo_runtime demo_engine ''report'' 3))
   \<and> answer (query demo_runtime demo_engine ''report'' 0) = no_documents_answer"
proof -
  have fs: "first_seen (map source (retrieve_relevant demo_runtime demo_engine ''report'' 3))
          = [''a.txt'', ''b.txt'']"
    unfolding demo_relevant(1) demo_sources by (simp add: first_seen_def)
  have ans: "answer (query demo_runtime demo_engine ''report'' 0) = no_documents_answer"
    unfolding query_def Let_def demo_relevant(2) by simp
  have neq: "sources (query demo_runtime demo_engine ''report'' 3)
       \<noteq> first_seen (map source (retrieve_relevant demo_runtime demo_engine ''report'' 3))"
    unfolding fs demo_query_sources by simp
  show ?thesis
    using demo_runtime_ok demo_relevant(3) neq ans by (intro conjI)
qed

end
